theory Spec2Isabelle
  imports Complex_Main
begin

section \<open>Values, cells and data frames\<close>

text \<open>
  The converters of \<^verbatim>\<open>src/data/convert_to_parquet.py\<close> work on pandas data frames.
  A numeric value of a column is a finite number (a rational: a double of a float64 column,
  or an integer of an int64 column) or one of the two infinities; NaN is the missing marker
  and is the cell \<open>NA\<close>. A value of the nullable integer type is an \<open>Int64\<close> cell.
\<close>

datatype fnum = Fin rat | PInf | MInf

datatype cell = Text string | Float fnum | Int64 int | NA

datatype error =
  EmptyDataError | ParserError | TypeError | OverflowError | ArrowError | OSError | KeyError
  | ValueError | IndexError

type_synonym row = "(string \<times> cell) list"

record frame =
  columns :: "string list"
  rows :: "row list"

text \<open>Comparison of a column value with a Python integer, as \<^verbatim>\<open>col >= lo\<close> and
  \<^verbatim>\<open>col <= hi\<close> compute it.\<close>

fun fnum_ge :: "fnum \<Rightarrow> int \<Rightarrow> bool" where
  "fnum_ge (Fin r) k = (of_int k \<le> r)"
| "fnum_ge PInf k = True"
| "fnum_ge MInf k = False"

fun fnum_le :: "fnum \<Rightarrow> int \<Rightarrow> bool" where
  "fnum_le (Fin r) k = (r \<le> of_int k)"
| "fnum_le PInf k = False"
| "fnum_le MInf k = True"

text \<open>The values of one column, \<^verbatim>\<open>chunk[c]\<close>, in the order of the rows.\<close>

definition col_values :: "string \<Rightarrow> row list \<Rightarrow> cell list" where
  "col_values c rs = map (\<lambda>r. case map_of r c of None \<Rightarrow> NA | Some v \<Rightarrow> v) rs"

text \<open>Assignment to one column, \<^verbatim>\<open>chunk[c] = f(chunk[c])\<close>, for a conversion that gives
  every value of the column its new value.\<close>

definition set_cell :: "string \<Rightarrow> (cell \<Rightarrow> cell) \<Rightarrow> row \<Rightarrow> row" where
  "set_cell c f r = map (\<lambda>(k, v). if k = c then (k, f v) else (k, v)) r"

definition assign_col :: "string \<Rightarrow> (cell \<Rightarrow> cell) \<Rightarrow> frame \<Rightarrow> frame" where
  "assign_col c f df = df\<lparr>rows := map (set_cell c f) (rows df)\<rparr>"

text \<open>
  \<^verbatim>\<open>pd.to_numeric(col, errors='coerce')\<close> converts a column as a whole. When every value
  parses as an integer of the int64 range, the column becomes int64 and holds these
  integers; otherwise it becomes float64, in which an integer of magnitude above \<open>2\<^sup>5\<^sup>3\<close> is
  rounded to the nearest double. The number a text becomes therefore depends on the column
  it stands in. The conversion is the library's and is a parameter \<open>pc\<close>: \<open>pc col s\<close> is the
  number that the text \<open>s\<close> becomes in the column \<open>col\<close>, and \<open>None\<close> says that \<open>s\<close> does not
  parse, which \<^verbatim>\<open>errors='coerce'\<close> turns into the missing marker instead of raising. A
  value that is numeric already, or missing, is left as it is.
\<close>

fun numeric_cell :: "(string \<Rightarrow> fnum option) \<Rightarrow> cell \<Rightarrow> cell" where
  "numeric_cell ps (Text s) = (case ps s of None \<Rightarrow> NA | Some v \<Rightarrow> Float v)"
| "numeric_cell ps (Float v) = Float v"
| "numeric_cell ps (Int64 i) = Int64 i"
| "numeric_cell ps NA = NA"

text \<open>\<^verbatim>\<open>chunk[c] = pd.to_numeric(chunk[c], errors='coerce')\<close>.\<close>

definition to_numeric :: "(cell list \<Rightarrow> string \<Rightarrow> fnum option) \<Rightarrow> string \<Rightarrow> frame \<Rightarrow> frame" where
  "to_numeric pc c df = assign_col c (numeric_cell (pc (col_values c (rows df)))) df"

text \<open>
  \<^verbatim>\<open>.astype('Int64')\<close> on a value of the numeric column: a missing value stays missing and
  a value that is a whole number inside the int64 range becomes that integer. A finite
  value that is not such a number makes pandas raise \<^verbatim>\<open>TypeError\<close> (cannot safely cast
  non-equivalent float64 to int64); this includes \<open>2\<^sup>6\<^sup>3\<close>, the double that \<open>2\<^sup>6\<^sup>3 - 1\<close> is
  rounded to in a float64 column. An infinite value makes it raise \<^verbatim>\<open>OverflowError\<close>.
\<close>

fun astype_Int64 :: "cell \<Rightarrow> error + cell" where
  "astype_Int64 NA = Inr NA"
| "astype_Int64 (Int64 i) = Inr (Int64 i)"
| "astype_Int64 (Float (Fin r)) =
     (if of_int \<lfloor>r\<rfloor> = r \<and> - (2 ^ 63) \<le> \<lfloor>r\<rfloor> \<and> \<lfloor>r\<rfloor> < 2 ^ 63
      then Inr (Int64 \<lfloor>r\<rfloor>) else Inl TypeError)"
| "astype_Int64 (Float PInf) = Inl OverflowError"
| "astype_Int64 (Float MInf) = Inl OverflowError"
| "astype_Int64 (Text s) = Inl TypeError"

text \<open>A loop that applies a fallible conversion to every element and stops at the first
  exception.\<close>

fun mapE :: "('a \<Rightarrow> error + 'b) \<Rightarrow> 'a list \<Rightarrow> error + 'b list" where
  "mapE f [] = Inr []"
| "mapE f (x # xs) =
     (case f x of Inl e \<Rightarrow> Inl e
      | Inr y \<Rightarrow> (case mapE f xs of Inl e \<Rightarrow> Inl e | Inr ys \<Rightarrow> Inr (y # ys)))"

text \<open>Assignment to one column by a conversion that raises at the first value of the
  column that it refuses.\<close>

definition try_cell :: "string \<Rightarrow> (cell \<Rightarrow> error + cell) \<Rightarrow> string \<times> cell \<Rightarrow> error + string \<times> cell" where
  "try_cell c f kv =
     (if fst kv = c
      then (case f (snd kv) of Inl e \<Rightarrow> Inl e | Inr v' \<Rightarrow> Inr (fst kv, v'))
      else Inr kv)"

definition try_assign_col :: "string \<Rightarrow> (cell \<Rightarrow> error + cell) \<Rightarrow> frame \<Rightarrow> error + frame" where
  "try_assign_col c f df =
     (case mapE (mapE (try_cell c f)) (rows df) of
        Inl e \<Rightarrow> Inl e
      | Inr rs \<Rightarrow> Inr (df\<lparr>rows := rs\<rparr>))"

section \<open>The chunked converter: year filter and schema coercion\<close>

definition year_col :: string where
  "year_col = ''collision_year''"

text \<open>The boolean mask of lines 54-55: a row is kept when its year is a number inside the
  inclusive bounds. A comparison with the missing marker is false.\<close>

definition year_in_range :: "int \<times> int \<Rightarrow> row \<Rightarrow> bool" where
  "year_in_range yf r =
     (case map_of r year_col of
        Some (Float v) \<Rightarrow> fnum_ge v (fst yf) \<and> fnum_le v (snd yf)
      | Some (Int64 i) \<Rightarrow> fst yf \<le> i \<and> i \<le> snd yf
      | _ \<Rightarrow> False)"

text \<open>Lines 52-55: the year column is made numeric, then the mask selects the rows.\<close>

definition apply_year_filter ::
  "(cell list \<Rightarrow> string \<Rightarrow> fnum option) \<Rightarrow> int \<times> int \<Rightarrow> frame \<Rightarrow> frame" where
  "apply_year_filter pc yf chunk =
     (let chunk1 = to_numeric pc year_col chunk
      in chunk1\<lparr>rows := filter (year_in_range yf) (rows chunk1)\<rparr>)"

text \<open>The Master Schema: the ordered fields with the class of their Arrow type, as
  \<^verbatim>\<open>pa.types.is_integer\<close> and \<^verbatim>\<open>pa.types.is_floating\<close> see it.\<close>

datatype arrow_type = IntegerT | FloatingT | OtherT

type_synonym schema = "(string \<times> arrow_type) list"

text \<open>Lines 63-71: one pass over the fields of the schema.\<close>

fun coerce_field ::
  "(cell list \<Rightarrow> string \<Rightarrow> fnum option) \<Rightarrow> string \<times> arrow_type \<Rightarrow> frame \<Rightarrow> error + frame" where
  "coerce_field pc (col_name, IntegerT) chunk =
     (if col_name \<in> set (columns chunk)
      then try_assign_col col_name astype_Int64 (to_numeric pc col_name chunk)
      else Inr chunk)"
| "coerce_field pc (col_name, FloatingT) chunk =
     (if col_name \<in> set (columns chunk)
      then Inr (to_numeric pc col_name chunk)
      else Inr chunk)"
| "coerce_field pc (col_name, OtherT) chunk = Inr chunk"

fun coerce_schema ::
  "(cell list \<Rightarrow> string \<Rightarrow> fnum option) \<Rightarrow> schema \<Rightarrow> frame \<Rightarrow> error + frame" where
  "coerce_schema pc [] chunk = Inr chunk"
| "coerce_schema pc (field # master_schema) chunk =
     (case coerce_field pc field chunk of
        Inl e \<Rightarrow> Inl e
      | Inr chunk' \<Rightarrow> coerce_schema pc master_schema chunk')"

section \<open>The chunked converter: shards\<close>

text \<open>
  The effects of the converter on the output directory are kept in a log, most recent
  event first: a \<^verbatim>\<open>ParquetWriter\<close> is opened on a path (the file is created empty), a
  table is written through it, it is closed, and a path is appended to the list the
  function returns.
\<close>

datatype event = EvOpen string | EvWrite string frame | EvClose string | EvAppend string

text \<open>The tables a file holds after the events of a log.\<close>

fun contents :: "event list \<Rightarrow> string \<Rightarrow> frame list" where
  "contents [] p = []"
| "contents (EvOpen q # l) p = (if q = p then [] else contents l p)"
| "contents (EvWrite q t # l) p = (if q = p then contents l p @ [t] else contents l p)"
| "contents (EvClose q # l) p = contents l p"
| "contents (EvAppend q # l) p = contents l p"

text \<open>The writers that are open after the events of a log.\<close>

fun open_writers :: "event list \<Rightarrow> string list" where
  "open_writers [] = []"
| "open_writers (EvOpen q # l) = q # open_writers l"
| "open_writers (EvClose q # l) = removeAll q (open_writers l)"
| "open_writers (EvWrite q t # l) = open_writers l"
| "open_writers (EvAppend q # l) = open_writers l"

text \<open>
  What the converter reads from its surroundings: the conversion of
  \<^verbatim>\<open>pd.to_numeric\<close> for the texts of a column, the stem of the input path
  (\<^verbatim>\<open>Path(csv_path).stem\<close>), the schema inferred from the first read (line 34-35, which may raise), the chunks the second read
  yields (the iterator may raise instead of yielding), whether
  \<^verbatim>\<open>pa.Table.from_pandas\<close> or \<^verbatim>\<open>write_table\<close> raises on a chunk, and the size in bytes
  the file system reports for a path after the events so far (\<open>None\<close>: the path does
  not exist).
\<close>

record csv_env =
  to_num :: "cell list \<Rightarrow> string \<Rightarrow> fnum option"
  stem :: "string \<Rightarrow> string"
  first_read :: "error + schema"
  chunk_stream :: "(error + frame) list"
  write_error :: "event list \<Rightarrow> schema \<Rightarrow> frame \<Rightarrow> error option"
  path_stat :: "event list \<Rightarrow> string \<Rightarrow> nat option"

definition MAX_SIZE_MB :: nat where
  "MAX_SIZE_MB = 50"

definition MAX_SIZE_BYTES :: nat where
  "MAX_SIZE_BYTES = MAX_SIZE_MB * 1024 * 1024"

text \<open>The format \<^verbatim>\<open>{part_num:02d}\<close>: the decimal digits, padded with zeros to two.\<close>

definition digit_char :: "nat \<Rightarrow> char" where
  "digit_char d = ''0123456789'' ! d"

fun dec :: "nat \<Rightarrow> string" where
  "dec n = (if n < 10 then [digit_char n] else dec (n div 10) @ [digit_char (n mod 10)])"

declare dec.simps [simp del]

definition fmt_02d :: "nat \<Rightarrow> string" where
  "fmt_02d n = replicate (2 - length (dec n)) (CHR ''0'') @ dec n"

text \<open>Line 77: \<^verbatim>\<open>output_path / f"{base_name}_part{part_num:02d}.parquet"\<close>, with the output
  directory in the form pathlib prints it.\<close>

definition part_path :: "string \<Rightarrow> string \<Rightarrow> nat \<Rightarrow> string" where
  "part_path output_dir base_name n =
     output_dir @ ''/'' @ base_name @ ''_part'' @ fmt_02d n @ ''.parquet''"

text \<open>
  The local variables of \<^verbatim>\<open>convert_large_csv_chunked\<close>. An open writer is named by the
  file it writes: \<^verbatim>\<open>current_file\<close> is assigned with \<^verbatim>\<open>current_writer\<close> and cleared with
  it, so one field stands for both. Sizes are in bytes.
\<close>

record conv_state =
  output_files :: "string list"
  part_num :: nat
  current_writer :: "string option"
  current_size :: nat
  total_rows :: nat
  filtered_rows :: nat
  rows_in_current_part :: nat
  log :: "event list"

definition init_state :: conv_state where
  "init_state = \<lparr>output_files = [], part_num = 1, current_writer = None, current_size = 0,
     total_rows = 0, filtered_rows = 0, rows_in_current_part = 0, log = []\<rparr>"

text \<open>Lines 76-79.\<close>

definition ensure_writer :: "string \<Rightarrow> string \<Rightarrow> conv_state \<Rightarrow> string \<times> conv_state" where
  "ensure_writer output_dir base_name st =
     (case current_writer st of
        Some f \<Rightarrow> (f, st)
      | None \<Rightarrow>
          (let f = part_path output_dir base_name (part_num st)
           in (f, st\<lparr>current_writer := Some f, rows_in_current_part := 0,
                     log := EvOpen f # log st\<rparr>)))"

text \<open>Lines 92-98: the shard is sealed.\<close>

definition seal :: "string \<Rightarrow> conv_state \<Rightarrow> conv_state" where
  "seal f st = st\<lparr>log := EvAppend f # EvClose f # log st,
                  output_files := output_files st @ [f],
                  part_num := part_num st + 1,
                  current_writer := None\<rparr>"

text \<open>
  Lines 87-99. The test \<^verbatim>\<open>current_size >= MAX_SIZE_MB * 0.9\<close> compares the size in bytes
  divided by \<open>2\<^sup>2\<^sup>0\<close> (exact in a double) with the double \<open>50 * 0.9\<close>, which is \<open>45.0\<close>:
  it holds exactly when ten times the size is at least nine times \<open>MAX_SIZE_BYTES\<close>.
\<close>

definition check_rollover :: "csv_env \<Rightarrow> string \<Rightarrow> conv_state \<Rightarrow> conv_state" where
  "check_rollover E f st =
     (case path_stat E (log st) f of
        None \<Rightarrow> st
      | Some sz \<Rightarrow>
          (let st' = st\<lparr>current_size := sz\<rparr>
           in if 9 * MAX_SIZE_BYTES \<le> 10 * sz then seal f st' else st'))"

text \<open>Lines 62-99: coercion, write and rollover for one chunk that was not skipped. The
  result is the exception raised, if any, with the state at that point.\<close>

definition write_chunk ::
  "csv_env \<Rightarrow> string \<Rightarrow> string \<Rightarrow> schema \<Rightarrow> conv_state \<Rightarrow> frame \<Rightarrow> error option \<times> conv_state" where
  "write_chunk E output_dir base_name master_schema st chunk =
     (case coerce_schema (to_num E) master_schema chunk of
        Inl e \<Rightarrow> (Some e, st)
      | Inr chunk' \<Rightarrow>
          (let st1 = st\<lparr>total_rows := total_rows st + length (rows chunk')\<rparr>;
               (f, st2) = ensure_writer output_dir base_name st1
           in case write_error E (log st2) master_schema chunk' of
                Some e \<Rightarrow> (Some e, st2)
              | None \<Rightarrow>
                  (let st3 = st2\<lparr>log := EvWrite f chunk' # log st2,
                                  rows_in_current_part :=
                                    rows_in_current_part st2 + length (rows chunk')\<rparr>
                   in (None, check_rollover E f st3))))"

text \<open>Lines 50-99: the body of the loop for one chunk.\<close>

definition process_chunk ::
  "csv_env \<Rightarrow> string \<Rightarrow> string \<Rightarrow> schema \<Rightarrow> (int \<times> int) option \<Rightarrow> conv_state \<Rightarrow> frame
     \<Rightarrow> error option \<times> conv_state" where
  "process_chunk E output_dir base_name master_schema year_filter st chunk =
     (case year_filter of
        None \<Rightarrow> write_chunk E output_dir base_name master_schema st chunk
      | Some yf \<Rightarrow>
          if year_col \<in> set (columns chunk)
          then (let original_len = length (rows chunk);
                    chunk' = apply_year_filter (to_num E) yf chunk;
                    st' = st\<lparr>filtered_rows :=
                              filtered_rows st + (original_len - length (rows chunk'))\<rparr>
                in if length (rows chunk') = 0 then (None, st')
                   else write_chunk E output_dir base_name master_schema st' chunk')
          else write_chunk E output_dir base_name master_schema st chunk)"

text \<open>Line 49: the loop over the chunks the reader yields.\<close>

fun run_chunks ::
  "csv_env \<Rightarrow> string \<Rightarrow> string \<Rightarrow> schema \<Rightarrow> (int \<times> int) option \<Rightarrow> conv_state
     \<Rightarrow> (error + frame) list \<Rightarrow> error option \<times> conv_state" where
  "run_chunks E output_dir base_name master_schema year_filter st [] = (None, st)"
| "run_chunks E output_dir base_name master_schema year_filter st (Inl e # rest) = (Some e, st)"
| "run_chunks E output_dir base_name master_schema year_filter st (Inr chunk # rest) =
     (case process_chunk E output_dir base_name master_schema year_filter st chunk of
        (Some e, st') \<Rightarrow> (Some e, st')
      | (None, st') \<Rightarrow> run_chunks E output_dir base_name master_schema year_filter st' rest)"

text \<open>Lines 106-110: the last shard is closed and recorded.\<close>

definition finish :: "conv_state \<Rightarrow> conv_state" where
  "finish st =
     (case current_writer st of
        None \<Rightarrow> st
      | Some f \<Rightarrow> st\<lparr>log := EvAppend f # EvClose f # log st,
                      output_files := output_files st @ [f]\<rparr>)"

text \<open>Lines 119-123: the handler closes the open writer; the exception is raised again.\<close>

definition cleanup :: "conv_state \<Rightarrow> conv_state" where
  "cleanup st =
     (case current_writer st of
        None \<Rightarrow> st
      | Some f \<Rightarrow> st\<lparr>log := EvClose f # log st\<rparr>)"

text \<open>
  \<^verbatim>\<open>convert_large_csv_chunked\<close>: the result is the returned list of paths or the exception
  that reaches the caller, with the log of what was done to the output directory. The
  first read is outside the \<^verbatim>\<open>try\<close>. Console output and the creation of the output
  directory are not part of the model.
\<close>

definition convert_large_csv_chunked ::
  "csv_env \<Rightarrow> string \<Rightarrow> string \<Rightarrow> (int \<times> int) option \<Rightarrow> (error + string list) \<times> event list" where
  "convert_large_csv_chunked E csv_path output_dir year_filter =
     (case first_read E of
        Inl e \<Rightarrow> (Inl e, [])
      | Inr master_schema \<Rightarrow>
          (case run_chunks E output_dir (stem E csv_path) master_schema year_filter
                  init_state (chunk_stream E) of
             (None, st) \<Rightarrow> (Inr (output_files (finish st)), log (finish st))
           | (Some e, st) \<Rightarrow> (Inl e, log (cleanup st))))"

section \<open>Properties of the chunked converter, as the specification words them\<close>

text \<open>A cell read as text whose year parses to a number inside the inclusive bounds,
  under the conversion \<open>ps\<close> of the texts of its column.\<close>

definition cell_parses_within :: "(string \<Rightarrow> fnum option) \<Rightarrow> int \<times> int \<Rightarrow> cell \<Rightarrow> bool" where
  "cell_parses_within ps yf c =
     (case numeric_cell ps c of
        Float v \<Rightarrow> fnum_ge v (fst yf) \<and> fnum_le v (snd yf)
      | Int64 i \<Rightarrow> fst yf \<le> i \<and> i \<le> snd yf
      | _ \<Rightarrow> False)"

definition year_parses_within :: "(string \<Rightarrow> fnum option) \<Rightarrow> int \<times> int \<Rightarrow> row \<Rightarrow> bool" where
  "year_parses_within ps yf r =
     (case map_of r year_col of None \<Rightarrow> False | Some c \<Rightarrow> cell_parses_within ps yf c)"

text \<open>A row of an output shard whose year is a number between the bounds.\<close>

fun cell_within :: "int \<Rightarrow> int \<Rightarrow> cell \<Rightarrow> bool" where
  "cell_within lo hi (Float (Fin q)) = (of_int lo \<le> q \<and> q \<le> of_int hi)"
| "cell_within lo hi (Int64 i) = (lo \<le> i \<and> i \<le> hi)"
| "cell_within lo hi c = False"

definition year_within :: "int \<Rightarrow> int \<Rightarrow> row \<Rightarrow> bool" where
  "year_within lo hi r =
     (case map_of r year_col of None \<Rightarrow> False | Some c \<Rightarrow> cell_within lo hi c)"

text \<open>The value of a cell under the declared type of its column, where \<open>ps\<close> is the
  conversion of the texts of that column: numeric coercion into a nullable integer, numeric
  coercion allowing missing values, or the cell as it is.\<close>

fun typed_cell :: "(string \<Rightarrow> fnum option) \<Rightarrow> arrow_type \<Rightarrow> cell \<Rightarrow> error + cell" where
  "typed_cell ps IntegerT c = astype_Int64 (numeric_cell ps c)"
| "typed_cell ps FloatingT c = Inr (numeric_cell ps c)"
| "typed_cell ps OtherT c = Inr c"

definition field_type :: "schema \<Rightarrow> string \<Rightarrow> arrow_type" where
  "field_type master_schema k = (case map_of master_schema k of None \<Rightarrow> OtherT | Some t \<Rightarrow> t)"

text \<open>The conversion of the texts of each column of a chunk, by the name of the column.\<close>

definition col_parser ::
  "(cell list \<Rightarrow> string \<Rightarrow> fnum option) \<Rightarrow> frame \<Rightarrow> string \<Rightarrow> string \<Rightarrow> fnum option" where
  "col_parser pc chunk c = pc (col_values c (rows chunk))"

definition typed_entry ::
  "(string \<Rightarrow> string \<Rightarrow> fnum option) \<Rightarrow> schema \<Rightarrow> string \<times> cell \<Rightarrow> error + string \<times> cell" where
  "typed_entry P master_schema kv =
     (case typed_cell (P (fst kv)) (field_type master_schema (fst kv)) (snd kv) of
        Inl e \<Rightarrow> Inl e
      | Inr v' \<Rightarrow> Inr (fst kv, v'))"

definition typed_row ::
  "(string \<Rightarrow> string \<Rightarrow> fnum option) \<Rightarrow> schema \<Rightarrow> row \<Rightarrow> error + row" where
  "typed_row P master_schema r = mapE (typed_entry P master_schema) r"

text \<open>A value that \<^verbatim>\<open>.astype('Int64')\<close> accepts: missing, or a whole number inside the int64
  range.\<close>

fun whole_int64 :: "cell \<Rightarrow> bool" where
  "whole_int64 NA = True"
| "whole_int64 (Int64 i) = True"
| "whole_int64 (Float (Fin r)) = (of_int \<lfloor>r\<rfloor> = r \<and> - (2 ^ 63) \<le> \<lfloor>r\<rfloor> \<and> \<lfloor>r\<rfloor> < 2 ^ 63)"
| "whole_int64 (Float PInf) = False"
| "whole_int64 (Float MInf) = False"
| "whole_int64 (Text s) = False"

text \<open>A cell of the nullable integer type.\<close>

fun nullable_int :: "cell \<Rightarrow> bool" where
  "nullable_int NA = True"
| "nullable_int (Int64 i) = True"
| "nullable_int c = False"

text \<open>A data frame is well formed when every row has exactly the columns of the frame.\<close>

definition wf_frame :: "frame \<Rightarrow> bool" where
  "wf_frame df = list_all (\<lambda>r. map fst r = columns df) (rows df)"

section \<open>Properties of the log of a conversion\<close>

text \<open>The tables written, the paths opened, the paths appended to the returned list and
  the paths closed, each in the order of the events.\<close>

fun written :: "event list \<Rightarrow> frame list" where
  "written [] = []"
| "written (EvWrite q t # l) = written l @ [t]"
| "written (EvOpen q # l) = written l"
| "written (EvClose q # l) = written l"
| "written (EvAppend q # l) = written l"

fun opened :: "event list \<Rightarrow> string list" where
  "opened [] = []"
| "opened (EvOpen q # l) = opened l @ [q]"
| "opened (EvWrite q t # l) = opened l"
| "opened (EvClose q # l) = opened l"
| "opened (EvAppend q # l) = opened l"

fun appended :: "event list \<Rightarrow> string list" where
  "appended [] = []"
| "appended (EvAppend q # l) = appended l @ [q]"
| "appended (EvOpen q # l) = appended l"
| "appended (EvWrite q t # l) = appended l"
| "appended (EvClose q # l) = appended l"

fun closed_paths :: "event list \<Rightarrow> string list" where
  "closed_paths [] = []"
| "closed_paths (EvClose q # l) = closed_paths l @ [q]"
| "closed_paths (EvOpen q # l) = closed_paths l"
| "closed_paths (EvWrite q t # l) = closed_paths l"
| "closed_paths (EvAppend q # l) = closed_paths l"

text \<open>No file is opened or written once a writer on it has been closed.\<close>

fun closed_untouched :: "event list \<Rightarrow> bool" where
  "closed_untouched [] = True"
| "closed_untouched (EvOpen q # l) = (q \<notin> set (closed_paths l) \<and> closed_untouched l)"
| "closed_untouched (EvWrite q t # l) = (q \<notin> set (closed_paths l) \<and> closed_untouched l)"
| "closed_untouched (EvClose q # l) = closed_untouched l"
| "closed_untouched (EvAppend q # l) = closed_untouched l"

text \<open>A path is appended to the returned list only as the event that follows the close of
  its writer.\<close>

fun append_follows_close :: "event list \<Rightarrow> bool" where
  "append_follows_close [] = True"
| "append_follows_close (EvAppend p # l) =
     ((case l of EvClose q # l' \<Rightarrow> q = p | _ \<Rightarrow> False) \<and> append_follows_close l)"
| "append_follows_close (EvOpen q # l) = append_follows_close l"
| "append_follows_close (EvWrite q t # l) = append_follows_close l"
| "append_follows_close (EvClose q # l) = append_follows_close l"

text \<open>At every point of the log at most one writer is open.\<close>

fun one_writer :: "event list \<Rightarrow> bool" where
  "one_writer [] = True"
| "one_writer (ev # l) = (length (open_writers (ev # l)) \<le> 1 \<and> one_writer l)"

text \<open>The size test of line 91 on the file \<open>f\<close> after the events \<open>l\<close>.\<close>

definition shard_full :: "csv_env \<Rightarrow> event list \<Rightarrow> string \<Rightarrow> bool" where
  "shard_full E l f =
     (case path_stat E l f of None \<Rightarrow> False | Some sz \<Rightarrow> 9 * MAX_SIZE_BYTES \<le> 10 * sz)"

text \<open>The event that follows a write which filled its shard is the close of that shard.\<close>

fun follows_write :: "csv_env \<Rightarrow> event \<Rightarrow> event list \<Rightarrow> bool" where
  "follows_write E ev (EvWrite f t # l) = (shard_full E (EvWrite f t # l) f \<longrightarrow> ev = EvClose f)"
| "follows_write E ev l = True"

fun sealed_when_full :: "csv_env \<Rightarrow> event list \<Rightarrow> bool" where
  "sealed_when_full E [] = True"
| "sealed_when_full E (ev # l) = (sealed_when_full E l \<and> follows_write E ev l)"

text \<open>The most recent event of a log is not a write; it is not a write that filled its
  shard.\<close>

fun no_pending_write :: "event list \<Rightarrow> bool" where
  "no_pending_write (EvWrite f t # l) = False"
| "no_pending_write l = True"

fun full_write_pending :: "csv_env \<Rightarrow> event list \<Rightarrow> bool" where
  "full_write_pending E (EvWrite f t # l) = shard_full E (EvWrite f t # l) f"
| "full_write_pending E l = False"

text \<open>The invariant of the loop of \<^verbatim>\<open>convert_large_csv_chunked\<close> between two chunks.\<close>

definition shard_inv :: "csv_env \<Rightarrow> string \<Rightarrow> string \<Rightarrow> conv_state \<Rightarrow> bool" where
  "shard_inv E d b st \<longleftrightarrow>
     1 \<le> part_num st \<and>
     output_files st = map (part_path d b) [1..<part_num st] \<and>
     appended (log st) = output_files st \<and>
     set (closed_paths (log st)) \<subseteq> part_path d b ` {1..<part_num st} \<and>
     closed_untouched (log st) \<and> append_follows_close (log st) \<and>
     one_writer (log st) \<and> sealed_when_full E (log st) \<and>
     (case current_writer st of
        None \<Rightarrow>
          open_writers (log st) = [] \<and> opened (log st) = output_files st \<and>
          concat (map (contents (log st)) (output_files st)) = written (log st) \<and>
          no_pending_write (log st)
      | Some f \<Rightarrow>
          f = part_path d b (part_num st) \<and> open_writers (log st) = [f] \<and>
          opened (log st) = output_files st @ [f] \<and>
          concat (map (contents (log st)) (output_files st)) @ contents (log st) f
            = written (log st) \<and>
          \<not> full_write_pending E (log st))"

text \<open>The chunks of a reader that are handed to the writer, after the year filter: a
  chunk that the filter empties is skipped.\<close>

definition prepared ::
  "(cell list \<Rightarrow> string \<Rightarrow> fnum option) \<Rightarrow> (int \<times> int) option \<Rightarrow> frame \<Rightarrow> frame option" where
  "prepared pc year_filter chunk =
     (case year_filter of
        None \<Rightarrow> Some chunk
      | Some yf \<Rightarrow>
          if year_col \<in> set (columns chunk)
          then (let ps = col_parser pc chunk year_col;
                    chunk' = chunk\<lparr>rows := map (set_cell year_col (numeric_cell ps))
                                    (filter (year_parses_within ps yf) (rows chunk))\<rparr>
                in if rows chunk' = [] then None else Some chunk')
          else Some chunk)"

text \<open>The rows of a chunk of the input that the year filter does not remove, as they were
  read, in the order of the file.\<close>

definition kept_rows ::
  "(cell list \<Rightarrow> string \<Rightarrow> fnum option) \<Rightarrow> (int \<times> int) option \<Rightarrow> frame \<Rightarrow> row list" where
  "kept_rows pc year_filter chunk =
     (case year_filter of
        None \<Rightarrow> rows chunk
      | Some yf \<Rightarrow>
          if year_col \<in> set (columns chunk)
          then filter (year_parses_within (col_parser pc chunk year_col) yf) (rows chunk)
          else rows chunk)"

text \<open>
  A row of a shard that stands for a row of the input: it has the same columns in the same
  order; a cell of a column that the schema does not type as integer or floating, other
  than the year column when a filter is configured, is the cell that was read; and a cell
  of an integer-typed column is of the nullable integer type.
\<close>

definition same_entry :: "schema \<Rightarrow> (int \<times> int) option \<Rightarrow> string \<times> cell \<Rightarrow> string \<times> cell \<Rightarrow> bool" where
  "same_entry master_schema year_filter kv kv' \<longleftrightarrow>
     fst kv' = fst kv
     \<and> (field_type master_schema (fst kv) = OtherT \<and> (year_filter = None \<or> fst kv \<noteq> year_col)
          \<longrightarrow> snd kv' = snd kv)
     \<and> (field_type master_schema (fst kv) = IntegerT \<longrightarrow> nullable_int (snd kv'))"

definition same_row :: "schema \<Rightarrow> (int \<times> int) option \<Rightarrow> row \<Rightarrow> row \<Rightarrow> bool" where
  "same_row master_schema year_filter r r' = list_all2 (same_entry master_schema year_filter) r r'"

fun stream_chunks :: "(error + frame) list \<Rightarrow> frame list" where
  "stream_chunks [] = []"
| "stream_chunks (Inl e # rest) = []"
| "stream_chunks (Inr chunk # rest) = chunk # stream_chunks rest"

section \<open>A small input\<close>

text \<open>A conversion that knows three texts, the same in every column, a chunk of three rows,
  and surroundings in which nothing fails and every shard stays small.\<close>

definition ex_parse :: "string \<Rightarrow> fnum option" where
  "ex_parse s =
     (if s = ''2016'' then Some (Fin 2016)
      else if s = ''1999'' then Some (Fin 1999)
      else if s = ''2.5'' then Some (Fin (5 / 2))
      else None)"

definition ex_schema :: schema where
  "ex_schema = [(''collision_year'', IntegerT), (''speed'', FloatingT), (''road'', OtherT)]"

definition ex_chunk :: frame where
  "ex_chunk = \<lparr>columns = [''collision_year'', ''speed'', ''road''],
     rows = [[(''collision_year'', Text ''2016''), (''speed'', Text ''2.5''), (''road'', Text ''A1'')],
             [(''collision_year'', Text ''n/a''), (''speed'', Text ''fast''), (''road'', Text ''B2'')],
             [(''collision_year'', Text ''1999''), (''speed'', Text ''2.5''), (''road'', NA)]]\<rparr>"

definition ex_env :: csv_env where
  "ex_env = \<lparr>to_num = (\<lambda>col. ex_parse), stem = (\<lambda>p. ''collision''), first_read = Inr ex_schema,
     chunk_stream = [Inr ex_chunk],
     write_error = (\<lambda>l s t. None), path_stat = (\<lambda>l p. Some 1000)\<rparr>"

text \<open>The table the converter writes for \<open>ex_chunk\<close> under the filter 2015 to 2024.\<close>

definition ex_table :: frame where
  "ex_table = \<lparr>columns = [''collision_year'', ''speed'', ''road''],
     rows = [[(''collision_year'', Int64 2016), (''speed'', Float (Fin (5 / 2))),
              (''road'', Text ''A1'')]]\<rparr>"

text \<open>Three chunks, with a file system on which every table takes 30 MB: the second write
  fills the first shard.\<close>

definition ex_env_roll :: csv_env where
  "ex_env_roll = ex_env\<lparr>chunk_stream := [Inr ex_chunk, Inr ex_chunk, Inr ex_chunk],
     path_stat := (\<lambda>l p. Some (30000000 * length (contents l p)))\<rparr>"

text \<open>A reader that raises after the first chunk.\<close>

definition ex_env_fail :: csv_env where
  "ex_env_fail = ex_env\<lparr>chunk_stream := [Inr ex_chunk, Inl ParserError]\<rparr>"

text \<open>
  Columns with an integer that is not a double. The integers \<open>2\<^sup>5\<^sup>3 + 1\<close> and \<open>2\<^sup>6\<^sup>3 - 1\<close>
  have \<open>2\<^sup>5\<^sup>3\<close> and \<open>2\<^sup>6\<^sup>3\<close> for their nearest doubles. The conversion follows pandas on the
  texts of these two integers: in a column of which every value is such a text, the column
  is int64 and the integers are kept; in any other column they are rounded. No other text
  parses.
\<close>

definition ex_big_int :: "string \<Rightarrow> int option" where
  "ex_big_int s =
     (if s = ''9007199254740993'' then Some 9007199254740993
      else if s = ''9223372036854775807'' then Some 9223372036854775807
      else None)"

definition ex_nearest_double :: "int \<Rightarrow> rat" where
  "ex_nearest_double i =
     (if i = 9007199254740993 then 9007199254740992
      else if i = 9223372036854775807 then 9223372036854775808
      else of_int i)"

fun ex_int_text :: "cell \<Rightarrow> bool" where
  "ex_int_text (Text s) = (ex_big_int s \<noteq> None)"
| "ex_int_text c = False"

definition ex_to_num :: "cell list \<Rightarrow> string \<Rightarrow> fnum option" where
  "ex_to_num col s =
     (case ex_big_int s of
        None \<Rightarrow> None
      | Some i \<Rightarrow> Some (Fin (if list_all ex_int_text col then of_int i else ex_nearest_double i)))"

definition ex_id_schema :: schema where
  "ex_id_schema = [(''id'', IntegerT)]"

definition ex_big_chunk :: frame where
  "ex_big_chunk = \<lparr>columns = [''id''],
     rows = [[(''id'', Text ''9007199254740993'')], [(''id'', Text ''abc'')]]\<rparr>"

definition ex_max_chunk :: frame where
  "ex_max_chunk = \<lparr>columns = [''id''],
     rows = [[(''id'', Text ''9223372036854775807'')], [(''id'', Text ''abc'')]]\<rparr>"

definition ex_max_alone :: frame where
  "ex_max_alone = \<lparr>columns = [''id''], rows = [[(''id'', Text ''9223372036854775807'')]]\<rparr>"

definition ex_env_big :: csv_env where
  "ex_env_big = \<lparr>to_num = ex_to_num, stem = (\<lambda>p. ''collision''), first_read = Inr ex_id_schema,
     chunk_stream = [Inr ex_big_chunk],
     write_error = (\<lambda>l s t. None), path_stat = (\<lambda>l p. Some 1000)\<rparr>"


section \<open>The small-file converter\<close>

text \<open>
  \<^verbatim>\<open>convert_small_csv\<close> writes whole files: \<^verbatim>\<open>to_parquet\<close> writes the rows of a frame to a
  path, \<^verbatim>\<open>os.remove\<close> deletes a path. The operations are logged, most recent first.
\<close>

datatype file_op = ToParquet string "row list" | Remove string

text \<open>
  What the converter reads from its surroundings: the stem of the input path, the frame
  \<^verbatim>\<open>pd.read_csv\<close> returns (or the exception it raises), whether \<^verbatim>\<open>to_parquet\<close> raises,
  and the size in bytes of the Parquet file that holds given rows.
\<close>

record small_env =
  small_stem :: "string \<Rightarrow> string"
  read_csv :: "error + frame"
  to_parquet_error :: "string \<Rightarrow> row list \<Rightarrow> error option"
  parquet_size :: "row list \<Rightarrow> nat"

text \<open>Lines 157-170: the loop over \<^verbatim>\<open>range(num_splits)\<close>, with its \<^verbatim>\<open>break\<close>.\<close>

fun split_parts ::
  "small_env \<Rightarrow> string \<Rightarrow> string \<Rightarrow> row list \<Rightarrow> nat \<Rightarrow> nat list \<Rightarrow> string list \<Rightarrow> file_op list
     \<Rightarrow> (error + string list) \<times> file_op list" where
  "split_parts S output_dir base_name df rows_per_split [] outs ops =
     (Inr outs, ops)"
| "split_parts S output_dir base_name df rows_per_split (i # indices) outs ops =
     (let start_idx = i * rows_per_split;
          end_idx = min ((i + 1) * rows_per_split) (length df)
      in if length df \<le> start_idx then (Inr outs, ops)
         else (let chunk = take (end_idx - start_idx) (drop start_idx df);
                   output_file = part_path output_dir base_name (i + 1)
               in case to_parquet_error S output_file chunk of
                    Some e \<Rightarrow> (Inl e, ops)
                  | None \<Rightarrow>
                      split_parts S output_dir base_name df rows_per_split indices
                        (outs @ [output_file]) (ToParquet output_file chunk # ops)))"

text \<open>
  \<^verbatim>\<open>convert_small_csv\<close>. Sizes are in bytes: \<^verbatim>\<open>file_size_mb <= MAX_SIZE_MB\<close> compares the
  size divided by \<open>2\<^sup>2\<^sup>0\<close> with 50, and \<^verbatim>\<open>int(file_size_mb / MAX_SIZE_MB)\<close> is the size
  divided by \<open>MAX_SIZE_BYTES\<close>, rounded down (the rounding of the double quotient cannot
  reach the next integer for a file below several petabytes).
\<close>

definition convert_small_csv ::
  "small_env \<Rightarrow> string \<Rightarrow> string \<Rightarrow> (error + string list) \<times> file_op list" where
  "convert_small_csv S csv_path output_dir =
     (case read_csv S of
        Inl e \<Rightarrow> (Inl e, [])
      | Inr df \<Rightarrow>
          (let base_name = small_stem S csv_path;
               temp_parquet = output_dir @ ''/'' @ base_name @ ''.parquet''
           in case to_parquet_error S temp_parquet (rows df) of
                Some e \<Rightarrow> (Inl e, [])
              | None \<Rightarrow>
                  (let file_size = parquet_size S (rows df)
                   in if file_size \<le> MAX_SIZE_BYTES
                      then (Inr [temp_parquet], [ToParquet temp_parquet (rows df)])
                      else (let num_splits = file_size div MAX_SIZE_BYTES + 1;
                                rows_per_split = length (rows df) div num_splits + 1
                            in split_parts S output_dir base_name (rows df) rows_per_split
                                 [0..<num_splits] []
                                 [Remove temp_parquet, ToParquet temp_parquet (rows df)]))))"

text \<open>The slices of the rows that the loop writes, one per index, up to its \<^verbatim>\<open>break\<close>.\<close>

fun slices :: "row list \<Rightarrow> nat \<Rightarrow> nat list \<Rightarrow> row list list" where
  "slices df rows_per_split [] = []"
| "slices df rows_per_split (i # indices) =
     (if length df \<le> i * rows_per_split then []
      else take (min ((i + 1) * rows_per_split) (length df) - i * rows_per_split)
             (drop (i * rows_per_split) df)
           # slices df rows_per_split indices)"

section \<open>The batch job\<close>

text \<open>
  \<^verbatim>\<open>main\<close>, lines 181-225: the table of input files and the two loops. The surroundings
  say which paths exist, what \<^verbatim>\<open>os.path.getsize\<close> returns, and what each converter finds
  for a path. The lines printed for a skipped file and for a failed conversion are the
  messages of the result; the summary printed after the loops is not part of the model.
\<close>

record main_env =
  path_exists :: "string \<Rightarrow> bool"
  getsize :: "string \<Rightarrow> error + nat"
  large_env :: "string \<Rightarrow> csv_env"
  small_env_of :: "string \<Rightarrow> small_env"

datatype message = Warning string | ConversionError string error

definition csv_files :: "(string \<times> string list) list" where
  "csv_files =
     [(''2025_dataset'',
         [''data/2025_dataset/collision-provisional-2025.csv'',
          ''data/2025_dataset/vehicle-provisional-2025.csv'',
          ''data/2025_dataset/casualty-provisional-2025.csv'']),
      (''2024_prior'',
         [''data/2024_prior/collision-1979-2024.csv'',
          ''data/2024_prior/vehicle-1979-2024.csv'',
          ''data/2024_prior/casualty-1979-2024.csv''])]"

text \<open>Lines 212-219, the body of the \<^verbatim>\<open>try\<close>.\<close>

definition convert_file ::
  "main_env \<Rightarrow> string \<Rightarrow> (int \<times> int) option \<Rightarrow> string \<Rightarrow> error + string list" where
  "convert_file M output_dir year_filter csv_file =
     (case getsize M csv_file of
        Inl e \<Rightarrow> Inl e
      | Inr file_size \<Rightarrow>
          if 500 * 1024 * 1024 < file_size
          then fst (convert_large_csv_chunked (large_env M csv_file) csv_file output_dir year_filter)
          else fst (convert_small_csv (small_env_of M csv_file) csv_file output_dir))"

text \<open>Lines 206-225, the loop over the files of one category.\<close>

fun convert_files ::
  "main_env \<Rightarrow> string \<Rightarrow> (int \<times> int) option \<Rightarrow> string list \<Rightarrow> string list \<times> message list
     \<Rightarrow> string list \<times> message list" where
  "convert_files M output_dir year_filter [] acc = acc"
| "convert_files M output_dir year_filter (csv_file # files) (all_output_files, printed) =
     (if \<not> path_exists M csv_file
      then convert_files M output_dir year_filter files
             (all_output_files, printed @ [Warning csv_file])
      else (case convert_file M output_dir year_filter csv_file of
              Inr outs \<Rightarrow>
                convert_files M output_dir year_filter files
                  (all_output_files @ outs, printed)
            | Inl e \<Rightarrow>
                convert_files M output_dir year_filter files
                  (all_output_files, printed @ [ConversionError csv_file e])))"

definition category_dir :: "string \<Rightarrow> string" where
  "category_dir category = ''data/parquet/'' @ category"

definition category_filter :: "string \<Rightarrow> (int \<times> int) option" where
  "category_filter category = (if category = ''2024_prior'' then Some (2015, 2024) else None)"

text \<open>Lines 196-225, the loop over the categories.\<close>

fun convert_categories ::
  "main_env \<Rightarrow> (string \<times> string list) list \<Rightarrow> string list \<times> message list
     \<Rightarrow> string list \<times> message list" where
  "convert_categories M [] acc = acc"
| "convert_categories M ((category, files) # rest) acc =
     convert_categories M rest
       (convert_files M (category_dir category) (category_filter category) files acc)"

definition main :: "main_env \<Rightarrow> string list \<times> message list" where
  "main M = convert_categories M csv_files ([], [])"

text \<open>What one entry of the table contributes, taken by itself: a missing path gives a
  warning and no output file, a conversion that raises gives the logged error and no
  output file, and a conversion that returns gives its files.\<close>

definition file_result ::
  "main_env \<Rightarrow> string \<Rightarrow> (int \<times> int) option \<Rightarrow> string \<Rightarrow> string list \<times> message list" where
  "file_result M output_dir year_filter csv_file =
     (if \<not> path_exists M csv_file then ([], [Warning csv_file])
      else (case convert_file M output_dir year_filter csv_file of
              Inl e \<Rightarrow> ([], [ConversionError csv_file e])
            | Inr outs \<Rightarrow> (outs, [])))"

definition category_results :: "main_env \<Rightarrow> string \<times> string list \<Rightarrow> (string list \<times> message list) list" where
  "category_results M entry =
     map (file_result M (category_dir (fst entry)) (category_filter (fst entry))) (snd entry)"

section \<open>The label replacement script\<close>












section \<open>Small inputs for the other scripts\<close>

text \<open>A frame of five rows whose single Parquet file is a little over 150 MB.\<close>

definition ex_small_df :: frame where
  "ex_small_df = \<lparr>columns = [''id''],
     rows = [[(''id'', Int64 1)], [(''id'', Int64 2)], [(''id'', Int64 3)],
             [(''id'', Int64 4)], [(''id'', Int64 5)]]\<rparr>"

definition ex_small :: small_env where
  "ex_small = \<lparr>small_stem = (\<lambda>p. ''small''), read_csv = Inr ex_small_df,
     to_parquet_error = (\<lambda>p rs. None), parquet_size = (\<lambda>rs. 157286401)\<rparr>"

text \<open>The same frame when its Parquet file is small.\<close>

definition ex_small_fit :: small_env where
  "ex_small_fit = ex_small\<lparr>parquet_size := (\<lambda>rs. 1000)\<rparr>"

text \<open>Surroundings of the batch job in which no file of the table exists, and one other
  path exists whose conversion raises.\<close>

definition ex_main :: main_env where
  "ex_main = \<lparr>path_exists = (\<lambda>p. p = ''data/collision.csv''),
     getsize = (\<lambda>p. Inr 600000000),
     large_env = (\<lambda>p. ex_env_fail), small_env_of = (\<lambda>p. ex_small)\<rparr>"






section \<open>Lemmas on conversions that may raise\<close>


lemma mapE_Cons_Inr:
  "mapE f (x # xs) = Inr zs \<longleftrightarrow> (\<exists>y ys. zs = y # ys \<and> f x = Inr y \<and> mapE f xs = Inr ys)"
  by (cases "f x"; cases "mapE f xs") auto

lemma mapE_Inr_iff: "mapE f xs = Inr ys \<longleftrightarrow> list_all2 (\<lambda>x y. f x = Inr y) xs ys"
proof (induction xs arbitrary: ys)
  case Nil
  show ?case by (cases ys) simp_all
next
  case (Cons x xs)
  show ?case
    unfolding mapE_Cons_Inr list_all2_Cons1 Cons.IH ..
qed

lemma mapE_Inr_map: "(\<And>x. x \<in> set xs \<Longrightarrow> f x = Inr (g x)) \<Longrightarrow> mapE f xs = Inr (map g xs)"
  by (induction xs) auto

lemma mapE_append:
  "mapE f (xs @ ys) =
     (case mapE f xs of Inl e \<Rightarrow> Inl e
      | Inr xs' \<Rightarrow> (case mapE f ys of Inl e \<Rightarrow> Inl e | Inr ys' \<Rightarrow> Inr (xs' @ ys')))"
  by (induction xs) (auto split: sum.splits)

lemma mapE_error: "(\<And>x e. x \<in> set xs \<Longrightarrow> f x = Inl e \<Longrightarrow> e = err) \<Longrightarrow> mapE f xs = Inl e \<Longrightarrow> e = err"
  by (induction xs) (auto split: sum.splits)

lemma mapE_map: "mapE f (map g xs) = mapE (\<lambda>x. f (g x)) xs"
  by (induction xs) (auto split: sum.splits)

lemma mapE_cong: "(\<And>x. x \<in> set xs \<Longrightarrow> f x = g x) \<Longrightarrow> mapE f xs = mapE g xs"
  by (induction xs) (auto split: sum.splits)

lemma map_of_set_cell: "map_of (set_cell c f r) k = (if k = c then map_option f (map_of r k) else map_of r k)"
  by (induction r) (auto simp: set_cell_def)


lemma year_in_range_set_cell:
  "year_in_range yf (set_cell year_col (numeric_cell ps) r) = year_parses_within ps yf r"
  by (auto simp: year_in_range_def year_parses_within_def cell_parses_within_def map_of_set_cell
      split: option.splits cell.splits)

lemma apply_year_filter_eq:
  "apply_year_filter pc yf chunk =
     chunk\<lparr>rows := map (set_cell year_col (numeric_cell (col_parser pc chunk year_col)))
       (filter (year_parses_within (col_parser pc chunk year_col) yf) (rows chunk))\<rparr>"
  by (simp add: apply_year_filter_def to_numeric_def col_parser_def assign_col_def Let_def
      filter_map o_def year_in_range_set_cell)

lemma length_filter_compl: "length xs - length (filter P xs) = length (filter (\<lambda>x. \<not> P x) xs)"
  using sum_length_filter_compl [of P xs] by simp


subsection \<open>Coercion of a chunk to the schema\<close>

lemma try_cell_upd:
  "try_cell c f (case kv of (k, v) \<Rightarrow> if k = c then (k, g v) else (k, v)) = try_cell c (\<lambda>v. f (g v)) kv"
  by (cases kv) (simp add: try_cell_def split: sum.splits)

lemma try_cell_set_cell:
  "mapE (try_cell c f) (set_cell c g r) = mapE (try_cell c (\<lambda>v. f (g v))) r"
  unfolding set_cell_def mapE_map try_cell_upd ..

lemma set_cell_ident: "set_cell c (\<lambda>v. v) r = r"
  by (induction r) (auto simp: set_cell_def)

lemma try_cell_total:
  "mapE (try_cell c (\<lambda>v. Inr (g v))) r = Inr (set_cell c g r)"
  by (induction r) (auto simp: set_cell_def try_cell_def split: sum.splits)

lemma try_cell_absent:
  "c \<notin> fst ` set r \<Longrightarrow> mapE (try_cell c f) r = Inr r"
  by (induction r) (auto simp: try_cell_def)

lemma try_cell_keys:
  "mapE (try_cell c f) r = Inr r' \<Longrightarrow> map fst r' = map fst r"
proof (induction r arbitrary: r')
  case Nil
  then show ?case by simp
next
  case (Cons kv r)
  from Cons.prems obtain kv' r0 where r': "r' = kv' # r0" and kv: "try_cell c f kv = Inr kv'"
    and r0: "mapE (try_cell c f) r = Inr r0"
    unfolding mapE_Cons_Inr by blast
  from kv have "fst kv' = fst kv"
    by (auto simp: try_cell_def split: if_splits sum.splits)
  with Cons.IH [OF r0] r' show ?case by simp
qed

lemma wf_frame_rows: "wf_frame df \<Longrightarrow> r \<in> set (rows df) \<Longrightarrow> map fst r = columns df"
  by (simp add: wf_frame_def list_all_iff)

lemma try_cell_other:
  "mapE (try_cell c f) r = Inr r' \<Longrightarrow> k \<noteq> c \<Longrightarrow> map_of r' k = map_of r k"
proof (induction r arbitrary: r')
  case Nil
  then show ?case by simp
next
  case (Cons kv r)
  from Cons.prems(1) obtain kv' r0 where r': "r' = kv' # r0" and kv: "try_cell c f kv = Inr kv'"
    and r0: "mapE (try_cell c f) r = Inr r0"
    unfolding mapE_Cons_Inr by blast
  from kv have "fst kv' = fst kv" "fst kv \<noteq> c \<longrightarrow> kv' = kv"
    by (auto simp: try_cell_def split: if_splits sum.splits)
  with Cons.IH [OF r0 Cons.prems(2)] r' Cons.prems(2) show ?case
    by (cases kv; cases kv') auto
qed

lemma col_values_try_cell:
  assumes "mapE (mapE (try_cell c f)) rs = Inr rs'" and "k \<noteq> c"
  shows "col_values k rs' = col_values k rs"
proof -
  from assms(1) have "list_all2 (\<lambda>r r'. mapE (try_cell c f) r = Inr r') rs rs'"
    by (simp add: mapE_Inr_iff)
  then have "list_all2 (\<lambda>r r'. map_of r' k = map_of r k) rs rs'"
    by (rule list_all2_mono) (simp add: try_cell_other assms(2))
  then show ?thesis
    by (induction rule: list_all2_induct) (simp_all add: col_values_def)
qed

lemma coerce_field_rows:
  assumes "wf_frame df"
  shows "coerce_field pc (c, T) df =
     (case mapE (mapE (try_cell c (typed_cell (col_parser pc df c) T))) (rows df) of
        Inl e \<Rightarrow> Inl e
      | Inr rs \<Rightarrow> Inr (df\<lparr>rows := rs\<rparr>))"
proof (cases "c \<in> set (columns df)")
  case True
  let ?ps = "col_parser pc df c"
  show ?thesis
  proof (cases T)
    case IntegerT
    have "typed_cell ?ps IntegerT = (\<lambda>v. astype_Int64 (numeric_cell ?ps v))"
      by (rule ext) simp
    with True IntegerT show ?thesis
      by (simp add: try_assign_col_def to_numeric_def col_parser_def assign_col_def mapE_map
          try_cell_set_cell split: sum.splits)
  next
    case FloatingT
    have "mapE (mapE (try_cell c (\<lambda>v. Inr (numeric_cell ?ps v)))) (rows df)
        = Inr (map (set_cell c (numeric_cell ?ps)) (rows df))"
      by (rule mapE_Inr_map) (simp add: try_cell_total)
    moreover have "typed_cell ?ps FloatingT = (\<lambda>v. Inr (numeric_cell ?ps v))"
      by (rule ext) simp
    ultimately show ?thesis
      using True FloatingT by (simp add: to_numeric_def col_parser_def assign_col_def)
  next
    case OtherT
    have "mapE (mapE (try_cell c (\<lambda>v. Inr v))) (rows df) = Inr (map (\<lambda>r. r) (rows df))"
      by (rule mapE_Inr_map) (simp add: try_cell_total set_cell_ident)
    moreover have "typed_cell ?ps OtherT = (\<lambda>v. Inr v)"
      by (rule ext) simp
    ultimately show ?thesis
      using OtherT by simp
  qed
next
  case False
  have "mapE (mapE (try_cell c (typed_cell (col_parser pc df c) T))) (rows df) = Inr (map id (rows df))"
  proof (rule mapE_Inr_map)
    fix r assume "r \<in> set (rows df)"
    with assms have "map fst r = columns df" by (rule wf_frame_rows)
    with False have "c \<notin> fst ` set r" by (metis set_map)
    then show "mapE (try_cell c (typed_cell (col_parser pc df c) T)) r = Inr (id r)"
      by (simp add: try_cell_absent)
  qed
  with False show ?thesis by (cases T) simp_all
qed

lemma try_cells_wf:
  assumes "wf_frame df" and "mapE (mapE (try_cell c f)) (rows df) = Inr rs"
  shows "wf_frame (df\<lparr>rows := rs\<rparr>)"
proof -
  from assms(2) have "list_all2 (\<lambda>r r'. mapE (try_cell c f) r = Inr r') (rows df) rs"
    by (simp add: mapE_Inr_iff)
  then have "list_all2 (\<lambda>r r'. map fst r' = map fst r) (rows df) rs"
    by (rule list_all2_mono) (rule try_cell_keys)
  then have "\<forall>r' \<in> set rs. \<exists>r \<in> set (rows df). map fst r' = map fst r"
    by (metis (mono_tags, lifting) in_set_conv_nth list_all2_conv_all_nth)
  with assms(1) have "\<forall>r' \<in> set rs. map fst r' = columns df"
    by (metis wf_frame_rows)
  then show ?thesis by (simp add: wf_frame_def list_all_iff)
qed

lemma coerce_field_wf:
  assumes "wf_frame df" and "coerce_field pc (c, T) df = Inr df'"
  shows "wf_frame df' \<and> columns df' = columns df"
proof -
  from assms obtain rs
    where rs: "mapE (mapE (try_cell c (typed_cell (col_parser pc df c) T))) (rows df) = Inr rs"
    and df': "df' = df\<lparr>rows := rs\<rparr>"
    by (auto simp: coerce_field_rows split: sum.splits)
  from try_cells_wf [OF assms(1) rs] df' show ?thesis by simp
qed


lemma list_all2_compose:
  "(\<exists>ys. list_all2 A xs ys \<and> list_all2 B ys zs) \<longleftrightarrow> list_all2 (\<lambda>x z. \<exists>y. A x y \<and> B y z) xs zs"
proof -
  have "list_all2 (A OO B) xs zs = (list_all2 A OO list_all2 B) xs zs"
    by (simp add: list.rel_compp)
  moreover have "A OO B = (\<lambda>x z. \<exists>y. A x y \<and> B y z)"
    by (intro ext) (simp add: relcompp_apply)
  ultimately show ?thesis by (simp add: relcompp_apply)
qed

lemma field_type_Cons:
  "field_type ((c, T) # sch) k = (if k = c then T else field_type sch k)"
  by (simp add: field_type_def)

lemma field_type_absent: "c \<notin> fst ` set sch \<Longrightarrow> field_type sch c = OtherT"
proof -
  assume "c \<notin> fst ` set sch"
  then have "map_of sch c = None" by (simp add: map_of_eq_None_iff)
  then show ?thesis by (simp add: field_type_def)
qed

lemma typed_entry_Cons:
  assumes "c \<notin> fst ` set sch"
  shows "typed_entry P ((c, T) # sch) kv = Inr kv'' \<longleftrightarrow>
     (\<exists>kv'. try_cell c (typed_cell (P c) T) kv = Inr kv' \<and> typed_entry P sch kv' = Inr kv'')"
proof (cases "fst kv = c")
  case True
  with assms show ?thesis
    by (cases "typed_cell (P c) T (snd kv)")
       (auto simp: typed_entry_def try_cell_def field_type_Cons field_type_absent)
next
  case False
  then show ?thesis
    by (simp add: typed_entry_def try_cell_def field_type_Cons)
qed

lemma typed_row_Cons:
  assumes "c \<notin> fst ` set sch"
  shows "typed_row P ((c, T) # sch) r = Inr r'' \<longleftrightarrow>
     (\<exists>r'. mapE (try_cell c (typed_cell (P c) T)) r = Inr r' \<and> typed_row P sch r' = Inr r'')"
  unfolding typed_row_def mapE_Inr_iff list_all2_compose typed_entry_Cons [OF assms] ..

lemma typed_rows_Cons:
  assumes "c \<notin> fst ` set sch"
  shows "mapE (typed_row P ((c, T) # sch)) rs = Inr rs'' \<longleftrightarrow>
     (\<exists>rs'. mapE (mapE (try_cell c (typed_cell (P c) T))) rs = Inr rs' \<and> mapE (typed_row P sch) rs' = Inr rs'')"
  unfolding mapE_Inr_iff [where f = "typed_row P ((c, T) # sch)"]
    mapE_Inr_iff [where f = "mapE (try_cell c (typed_cell (P c) T))"]
    mapE_Inr_iff [where f = "typed_row P sch"]
    list_all2_compose typed_row_Cons [OF assms] ..

lemma typed_row_Nil: "typed_row P [] r = Inr r"
proof -
  have "mapE (typed_entry P []) r = Inr (map (\<lambda>kv. kv) r)"
    by (rule mapE_Inr_map) (simp add: typed_entry_def field_type_def)
  then show ?thesis by (simp add: typed_row_def)
qed

lemma typed_rows_Nil: "mapE (typed_row P []) rs = Inr rs"
proof -
  have "mapE (typed_row P []) rs = Inr (map (\<lambda>r. r) rs)"
    by (rule mapE_Inr_map) (simp add: typed_row_Nil)
  then show ?thesis by simp
qed

lemma coerce_schema_iff_gen:
  assumes "distinct (map fst sch)" and "wf_frame df"
    and "\<And>c. c \<in> fst ` set sch \<Longrightarrow> col_parser pc df c = P c"
  shows "coerce_schema pc sch df = Inr df' \<longleftrightarrow>
     (\<exists>rs. mapE (typed_row P sch) (rows df) = Inr rs \<and> df' = df\<lparr>rows := rs\<rparr>)"
  using assms
proof (induction sch arbitrary: df)
  case Nil
  show ?case by (auto simp: typed_rows_Nil)
next
  case (Cons field sch)
  obtain c T where field: "field = (c, T)" by (cases field)
  from Cons.prems field have c: "c \<notin> fst ` set sch" and d: "distinct (map fst sch)"
    by auto
  have pc: "col_parser pc df c = P c"
    by (rule Cons.prems(3)) (simp add: field)
  show ?case
  proof (cases "mapE (mapE (try_cell c (typed_cell (P c) T))) (rows df)")
    case (Inl e)
    then show ?thesis
      using Cons.prems(2) by (simp add: field coerce_field_rows pc typed_rows_Cons [OF c])
  next
    case (Inr rs1)
    let ?df1 = "df\<lparr>rows := rs1\<rparr>"
    from Inr Cons.prems(2) have cf: "coerce_field pc (c, T) df = Inr ?df1"
      by (simp add: coerce_field_rows pc)
    with Cons.prems(2) have wf1: "wf_frame ?df1"
      using coerce_field_wf by blast
    have p1: "col_parser pc ?df1 k = P k" if "k \<in> fst ` set sch" for k
    proof -
      from that c have "k \<noteq> c" by auto
      from col_values_try_cell [OF Inr this] have "col_parser pc ?df1 k = col_parser pc df k"
        by (simp add: col_parser_def)
      also have "\<dots> = P k"
        by (rule Cons.prems(3)) (use that in simp)
      finally show ?thesis .
    qed
    have "coerce_schema pc (field # sch) df = coerce_schema pc sch ?df1"
      by (simp add: field cf)
    also have "\<dots> = Inr df' \<longleftrightarrow>
        (\<exists>rs. mapE (typed_row P sch) rs1 = Inr rs \<and> df' = df\<lparr>rows := rs\<rparr>)"
      using Cons.IH [OF d wf1 p1] by simp
    finally show ?thesis
      using Inr by (auto simp: field typed_rows_Cons [OF c])
  qed
qed

lemma coerce_schema_iff:
  assumes "distinct (map fst sch)" and "wf_frame df"
  shows "coerce_schema pc sch df = Inr df' \<longleftrightarrow>
     (\<exists>rs. mapE (typed_row (col_parser pc df) sch) (rows df) = Inr rs \<and> df' = df\<lparr>rows := rs\<rparr>)"
  by (rule coerce_schema_iff_gen [OF assms]) simp

lemma mapE_error_pred:
  "(\<And>x e. x \<in> set xs \<Longrightarrow> f x = Inl e \<Longrightarrow> Q e) \<Longrightarrow> mapE f xs = Inl e \<Longrightarrow> Q e"
  by (induction xs) (auto split: sum.splits)

lemma mapE_Inl_iff: "(\<exists>e. mapE f xs = Inl e) \<longleftrightarrow> (\<exists>x \<in> set xs. \<exists>e. f x = Inl e)"
  by (induction xs) (auto split: sum.splits)

lemma astype_Int64_error: "astype_Int64 v = Inl e \<Longrightarrow> e = TypeError \<or> e = OverflowError"
  by (induction v rule: astype_Int64.induct) (auto split: if_splits)

lemma astype_Int64_whole: "(\<exists>e. astype_Int64 v = Inl e) \<longleftrightarrow> \<not> whole_int64 v"
  by (induction v rule: astype_Int64.induct) auto

lemma astype_Int64_nullable: "astype_Int64 v = Inr v' \<Longrightarrow> nullable_int v'"
  by (induction v rule: astype_Int64.induct) (auto split: if_splits)

lemma typed_cell_raises:
  "(\<exists>e. typed_cell ps T v = Inl e) \<longleftrightarrow> T = IntegerT \<and> \<not> whole_int64 (numeric_cell ps v)"
  by (cases T) (simp_all add: astype_Int64_whole)

lemma coerce_field_error:
  "coerce_field pc field df = Inl e \<Longrightarrow> e = TypeError \<or> e = OverflowError"
proof (induction pc field df rule: coerce_field.induct)
  case (1 pc col_name chunk)
  then have "mapE (mapE (try_cell col_name astype_Int64))
      (rows (to_numeric pc col_name chunk)) = Inl e"
    by (auto simp: try_assign_col_def split: if_splits sum.splits)
  then show ?case
  proof (rule mapE_error_pred [rotated])
    fix r e' assume "mapE (try_cell col_name astype_Int64) r = Inl e'"
    then show "e' = TypeError \<or> e' = OverflowError"
    proof (rule mapE_error_pred [rotated])
      fix kv e'' assume "try_cell col_name astype_Int64 kv = Inl e''"
      then show "e'' = TypeError \<or> e'' = OverflowError"
        by (auto simp: try_cell_def split: if_splits sum.splits dest: astype_Int64_error)
    qed
  qed
qed (auto split: if_splits)

lemma coerce_schema_error:
  "coerce_schema pc sch df = Inl e \<Longrightarrow> e = TypeError \<or> e = OverflowError"
  by (induction sch arbitrary: df) (auto split: sum.splits dest: coerce_field_error)

lemma typed_entry_raises:
  "(\<exists>e. typed_entry P sch kv = Inl e) \<longleftrightarrow>
     field_type sch (fst kv) = IntegerT \<and> \<not> whole_int64 (numeric_cell (P (fst kv)) (snd kv))"
proof -
  have "(\<exists>e. typed_entry P sch kv = Inl e) \<longleftrightarrow>
      (\<exists>e. typed_cell (P (fst kv)) (field_type sch (fst kv)) (snd kv) = Inl e)"
    by (auto simp: typed_entry_def split: sum.splits)
  then show ?thesis by (simp only: typed_cell_raises)
qed

lemma coerce_schema_raises:
  assumes "distinct (map fst sch)" and "wf_frame df"
  shows "(\<exists>e. coerce_schema pc sch df = Inl e) \<longleftrightarrow>
     (\<exists>r \<in> set (rows df). \<exists>kv \<in> set r. field_type sch (fst kv) = IntegerT
        \<and> \<not> whole_int64 (numeric_cell (col_parser pc df (fst kv)) (snd kv)))"
proof -
  let ?P = "col_parser pc df"
  have "(\<exists>e. coerce_schema pc sch df = Inl e) \<longleftrightarrow> (\<forall>df'. coerce_schema pc sch df \<noteq> Inr df')"
    by (cases "coerce_schema pc sch df") auto
  also have "\<dots> \<longleftrightarrow> (\<forall>rs. mapE (typed_row ?P sch) (rows df) \<noteq> Inr rs)"
    unfolding coerce_schema_iff [OF assms] by blast
  also have "\<dots> \<longleftrightarrow> (\<exists>e. mapE (typed_row ?P sch) (rows df) = Inl e)"
    by (cases "mapE (typed_row ?P sch) (rows df)") auto
  also have "\<dots> \<longleftrightarrow> (\<exists>r \<in> set (rows df). \<exists>kv \<in> set r. \<exists>e. typed_entry ?P sch kv = Inl e)"
    by (simp only: mapE_Inl_iff typed_row_def)
  finally show ?thesis by (simp only: typed_entry_raises)
qed


section \<open>Shard paths are distinct\<close>


lemma digit_char_inj: "a < 10 \<Longrightarrow> b < 10 \<Longrightarrow> digit_char a = digit_char b \<longleftrightarrow> a = b"
proof -
  assume "a < 10" "b < 10"
  moreover have "distinct ''0123456789''" by simp
  moreover have "length ''0123456789'' = 10" by simp
  ultimately show ?thesis
    unfolding digit_char_def by (metis nth_eq_iff_index_eq)
qed

lemma dec_nonempty: "dec n \<noteq> []"
  by (subst dec.simps) simp

lemma dec_inj: "dec n = dec m \<Longrightarrow> n = m"
proof (induction n arbitrary: m rule: dec.induct)
  case (1 n)
  show ?case
  proof (cases "n < 10")
    case True
    note n = this
    show ?thesis
    proof (cases "m < 10")
      case True
      with n "1.prems" show ?thesis
        by (simp add: dec.simps [of n] dec.simps [of m] digit_char_inj)
    next
      case False
      with n "1.prems" dec_nonempty [of "m div 10"] show ?thesis
        by (simp add: dec.simps [of n] dec.simps [of m] Cons_eq_append_conv)
    qed
  next
    case False
    note n = this
    show ?thesis
    proof (cases "m < 10")
      case True
      with n "1.prems" dec_nonempty [of "n div 10"] show ?thesis
        by (simp add: dec.simps [of n] dec.simps [of m] append_eq_Cons_conv)
    next
      case False
      with n "1.prems" have eq: "dec (n div 10) = dec (m div 10)"
        and d: "digit_char (n mod 10) = digit_char (m mod 10)"
        by (simp_all add: dec.simps [of n] dec.simps [of m])
      from "1.IH" [OF n eq] have "n div 10 = m div 10" .
      moreover from d have "n mod 10 = m mod 10"
        by (simp add: digit_char_inj)
      ultimately show ?thesis
        by (metis div_mult_mod_eq)
    qed
  qed
qed

lemma dec_length_one: "length (dec n) = Suc 0 \<longleftrightarrow> n < 10"
proof (cases "n < 10")
  case True
  then show ?thesis by (simp add: dec.simps [of n])
next
  case False
  with dec_nonempty [of "n div 10"] show ?thesis
    by (cases "dec (n div 10)") (simp_all add: dec.simps [of n])
qed

lemma dec_hd_nonzero: "0 < n \<Longrightarrow> hd (dec n) \<noteq> CHR ''0''"
proof (induction n rule: dec.induct)
  case (1 n)
  show ?case
  proof (cases "n < 10")
    case True
    have "digit_char 0 = CHR ''0''" by (simp add: digit_char_def)
    with True "1.prems" digit_char_inj [of n 0] show ?thesis
      by (simp add: dec.simps [of n])
  next
    case False
    then have "0 < n div 10" by simp
    with "1.IH" [OF False] have "hd (dec (n div 10)) \<noteq> CHR ''0''" by simp
    with False dec_nonempty [of "n div 10"] show ?thesis
      by (simp add: dec.simps [of n])
  qed
qed

lemma fmt_02d_inj: "fmt_02d n = fmt_02d m \<Longrightarrow> n = m"
proof -
  assume eq: "fmt_02d n = fmt_02d m"
  have pad: "fmt_02d k = (if k < 10 then CHR ''0'' # dec k else dec k)" for k
  proof (cases "k < 10")
    case True
    then have "length (dec k) = Suc 0" by (simp add: dec_length_one)
    with True show ?thesis by (simp add: fmt_02d_def)
  next
    case False
    then have "length (dec k) \<noteq> Suc 0" by (simp add: dec_length_one)
    moreover have "length (dec k) \<noteq> 0" using dec_nonempty [of k] by simp
    ultimately have "2 - length (dec k) = 0" by arith
    with False show ?thesis by (simp add: fmt_02d_def)
  qed
  have zero: "dec k \<noteq> CHR ''0'' # xs" if "10 \<le> k" for k xs
  proof
    assume "dec k = CHR ''0'' # xs"
    then have "hd (dec k) = CHR ''0''" by simp
    moreover from that have "0 < k" by simp
    ultimately show False using dec_hd_nonzero by blast
  qed
  show ?thesis
  proof (cases "n < 10")
    case True
    note n = this
    show ?thesis
    proof (cases "m < 10")
      case True
      with n eq show ?thesis by (simp add: pad dec_inj)
    next
      case False
      with n eq zero [of m "dec n"] show ?thesis by (simp add: pad)
    qed
  next
    case False
    note n = this
    show ?thesis
    proof (cases "m < 10")
      case True
      with n eq zero [of n "dec m"] show ?thesis by (simp add: pad)
    next
      case False
      with n eq show ?thesis by (simp add: pad dec_inj)
    qed
  qed
qed

lemma part_path_inj [simp]: "part_path d b n = part_path d b m \<longleftrightarrow> n = m"
  by (auto simp: part_path_def dest: fmt_02d_inj)


section \<open>The invariant of the shard loop\<close>


lemma shard_inv_init: "shard_inv E d b init_state"
  by (simp add: shard_inv_def init_state_def)

lemma shard_inv_counters [simp]:
  "shard_inv E d b (st\<lparr>total_rows := x\<rparr>) = shard_inv E d b st"
  "shard_inv E d b (st\<lparr>filtered_rows := y\<rparr>) = shard_inv E d b st"
  "shard_inv E d b (st\<lparr>current_size := z\<rparr>) = shard_inv E d b st"
  "shard_inv E d b (st\<lparr>rows_in_current_part := w\<rparr>) = shard_inv E d b st"
  by (simp_all add: shard_inv_def cong: option.case_cong)

lemma map_contents_other:
  "f \<notin> set ps \<Longrightarrow> map (contents (EvWrite f t # l)) ps = map (contents l) ps"
  "f \<notin> set ps \<Longrightarrow> map (contents (EvOpen f # l)) ps = map (contents l) ps"
  "map (contents (EvClose f # l)) ps = map (contents l) ps"
  "map (contents (EvAppend f # l)) ps = map (contents l) ps"
  by (induction ps) auto

lemma follows_write_not_full: "\<not> full_write_pending E l \<Longrightarrow> follows_write E ev l"
  by (induction E l rule: full_write_pending.induct) simp_all

lemma follows_write_no_pending: "no_pending_write l \<Longrightarrow> follows_write E ev l"
  by (induction l rule: no_pending_write.induct) simp_all

lemma part_path_fresh: "part_path d b n \<notin> part_path d b ` {1..<n}"
  by auto

lemma part_path_fresh_list: "part_path d b n \<notin> set (map (part_path d b) [1..<n])"
  by auto

lemma shard_inv_open:
  assumes inv: "shard_inv E d b st" and w: "current_writer st = None"
  shows "shard_inv E d b (st\<lparr>current_writer := Some (part_path d b (part_num st)),
                            rows_in_current_part := 0,
                            log := EvOpen (part_path d b (part_num st)) # log st\<rparr>)"
proof -
  let ?f = "part_path d b (part_num st)"
  from inv [unfolded shard_inv_def w option.case]
  have files: "output_files st = map (part_path d b) [1..<part_num st]"
    and cl: "set (closed_paths (log st)) \<subseteq> part_path d b ` {1..<part_num st}"
    and ow: "open_writers (log st) = []"
    and np: "no_pending_write (log st)"
    and rest: "1 \<le> part_num st" "appended (log st) = output_files st"
      "closed_untouched (log st)" "append_follows_close (log st)" "one_writer (log st)"
      "sealed_when_full E (log st)" "opened (log st) = output_files st"
      "concat (map (contents (log st)) (output_files st)) = written (log st)"
    by blast+
  from cl have fresh: "?f \<notin> set (closed_paths (log st))"
    using part_path_fresh [of d b "part_num st"] by blast
  have fresh': "?f \<notin> set (output_files st)"
    unfolding files by (rule part_path_fresh_list)
  from np have sw: "follows_write E (EvOpen ?f) (log st)"
    by (rule follows_write_no_pending)
  show ?thesis
    unfolding shard_inv_def
    using files [symmetric] cl ow rest fresh fresh' sw
    by (simp add: map_contents_other)
qed

lemma shard_inv_write:
  assumes inv: "shard_inv E d b st" and w: "current_writer st = Some f"
  shows "shard_inv E d b (check_rollover E f (st\<lparr>log := EvWrite f t # log st, rows_in_current_part := x\<rparr>))"
proof -
  from inv [unfolded shard_inv_def w option.case]
  have f: "f = part_path d b (part_num st)"
    and files: "output_files st = map (part_path d b) [1..<part_num st]"
    and cl: "set (closed_paths (log st)) \<subseteq> part_path d b ` {1..<part_num st}"
    and ow: "open_writers (log st) = [f]"
    and hd: "\<not> full_write_pending E (log st)"
    and rest: "1 \<le> part_num st" "appended (log st) = output_files st"
      "closed_untouched (log st)" "append_follows_close (log st)" "one_writer (log st)"
      "sealed_when_full E (log st)" "opened (log st) = output_files st @ [f]"
      "concat (map (contents (log st)) (output_files st)) @ contents (log st) f = written (log st)"
    by blast+
  from cl f have fresh: "f \<notin> set (closed_paths (log st))"
    using part_path_fresh [of d b "part_num st"] by blast
  have fresh': "f \<notin> set (output_files st)"
    unfolding files f by (rule part_path_fresh_list)
  from hd have sw: "follows_write E (EvWrite f t) (log st)"
    by (rule follows_write_not_full)
  have fin: "f \<in> part_path d b ` {1..<Suc (part_num st)}"
    using f rest(1) by auto
  have cl': "set (closed_paths (log st)) \<subseteq> part_path d b ` {1..<Suc (part_num st)}"
    using cl by auto
  have up: "[1..<Suc (part_num st)] = [1..<part_num st] @ [part_num st]"
    using rest(1) by simp
  let ?st3 = "st\<lparr>log := EvWrite f t # log st, rows_in_current_part := x\<rparr>"
  have open3: "shard_inv E d b (?st3\<lparr>current_size := sz\<rparr>)"
    if "\<not> shard_full E (EvWrite f t # log st) f" for sz
    unfolding shard_inv_def
    using w f [symmetric] files [symmetric] cl ow rest fresh fresh' sw that
    by (simp add: map_contents_other)
  have sealed3: "shard_inv E d b (seal f (?st3\<lparr>current_size := sz\<rparr>))" for sz
    unfolding shard_inv_def seal_def
    using w f [symmetric] files [symmetric] cl' ow rest fresh fresh' sw up fin
    by (simp add: map_contents_other)
  show ?thesis
  proof (cases "path_stat E (EvWrite f t # log st) f")
    case None
    then have "\<not> shard_full E (EvWrite f t # log st) f" by (simp add: shard_full_def)
    from open3 [OF this, of "current_size st"] None show ?thesis
      by (simp add: check_rollover_def)
  next
    case (Some sz)
    show ?thesis
    proof (cases "9 * MAX_SIZE_BYTES \<le> 10 * sz")
      case True
      with Some sealed3 [of sz] show ?thesis by (simp add: check_rollover_def)
    next
      case False
      with Some have "\<not> shard_full E (EvWrite f t # log st) f" by (simp add: shard_full_def)
      from open3 [OF this, of sz] Some False show ?thesis by (simp add: check_rollover_def)
    qed
  qed
qed



lemma ensure_writer_inv:
  assumes "shard_inv E d b st" and "ensure_writer d b st = (f, st')"
  shows "shard_inv E d b st' \<and> current_writer st' = Some f \<and> written (log st') = written (log st)"
proof (cases "current_writer st")
  case None
  with assms(2) have "st' = st\<lparr>current_writer := Some (part_path d b (part_num st)),
      rows_in_current_part := 0, log := EvOpen (part_path d b (part_num st)) # log st\<rparr>"
    and "f = part_path d b (part_num st)"
    by (auto simp: ensure_writer_def Let_def)
  with shard_inv_open [OF assms(1) None] show ?thesis by simp
next
  case (Some g)
  with assms show ?thesis by (auto simp: ensure_writer_def)
qed

lemma check_rollover_written: "written (log (check_rollover E f st)) = written (log st)"
  by (simp add: check_rollover_def seal_def Let_def split: option.splits)

lemma write_chunk_inv:
  assumes "shard_inv E d b st"
  shows "shard_inv E d b (snd (write_chunk E d b sch st c))"
proof (cases "coerce_schema (to_num E) sch c")
  case (Inl e)
  with assms show ?thesis by (simp add: write_chunk_def)
next
  case (Inr c')
  let ?st1 = "st\<lparr>total_rows := total_rows st + length (rows c')\<rparr>"
  obtain f st2 where ew: "ensure_writer d b ?st1 = (f, st2)"
    by (cases "ensure_writer d b ?st1")
  from assms have "shard_inv E d b ?st1" by simp
  from ensure_writer_inv [OF this ew]
  have inv2: "shard_inv E d b st2" and w2: "current_writer st2 = Some f" by simp_all
  show ?thesis
  proof (cases "write_error E (log st2) sch c'")
    case None
    with Inr ew shard_inv_write [OF inv2 w2] show ?thesis
      by (simp add: write_chunk_def Let_def)
  next
    case (Some e)
    with Inr ew inv2 show ?thesis by (simp add: write_chunk_def Let_def)
  qed
qed

lemma write_chunk_written:
  assumes "shard_inv E d b st" and "write_chunk E d b sch st c = (r, st')"
  shows "case coerce_schema (to_num E) sch c of
           Inl e \<Rightarrow> r = Some e \<and> written (log st') = written (log st)
         | Inr c' \<Rightarrow> (r = None \<and> written (log st') = written (log st) @ [c'])
                     \<or> (r \<noteq> None \<and> written (log st') = written (log st))"
proof (cases "coerce_schema (to_num E) sch c")
  case (Inl e)
  with assms show ?thesis by (auto simp: write_chunk_def)
next
  case (Inr c')
  let ?st1 = "st\<lparr>total_rows := total_rows st + length (rows c')\<rparr>"
  obtain f st2 where ew: "ensure_writer d b ?st1 = (f, st2)"
    by (cases "ensure_writer d b ?st1")
  from assms have "shard_inv E d b ?st1" by simp
  from ensure_writer_inv [OF this ew]
  have wr2: "written (log st2) = written (log st)" by simp
  show ?thesis
  proof (cases "write_error E (log st2) sch c'")
    case None
    let ?st3 = "st2\<lparr>log := EvWrite f c' # log st2,
        rows_in_current_part := rows_in_current_part st2 + length (rows c')\<rparr>"
    from None Inr ew have "write_chunk E d b sch st c = (None, check_rollover E f ?st3)"
      by (simp add: write_chunk_def Let_def)
    with assms(2) have "r = None" "st' = check_rollover E f ?st3" by simp_all
    with Inr wr2 show ?thesis by (simp add: check_rollover_written)
  next
    case (Some e)
    with Inr ew have "write_chunk E d b sch st c = (Some e, st2)"
      by (simp add: write_chunk_def Let_def)
    with assms(2) have "r = Some e" "st' = st2" by simp_all
    with Inr wr2 show ?thesis by simp
  qed
qed

lemma process_chunk_inv:
  assumes "shard_inv E d b st"
  shows "shard_inv E d b (snd (process_chunk E d b sch yf st c))"
  using assms by (simp add: process_chunk_def Let_def write_chunk_inv split: option.splits)

lemma prepared_None:
  "prepared ps None c = Some c"
  by (simp add: prepared_def)

lemma process_chunk_written:
  assumes "shard_inv E d b st" and "process_chunk E d b sch yf st c = (r, st')"
  shows "case prepared (to_num E) yf c of
           None \<Rightarrow> r = None \<and> written (log st') = written (log st)
         | Some c0 \<Rightarrow>
            (case coerce_schema (to_num E) sch c0 of
               Inl e \<Rightarrow> r = Some e \<and> written (log st') = written (log st)
             | Inr c' \<Rightarrow> (r = None \<and> written (log st') = written (log st) @ [c'])
                         \<or> (r \<noteq> None \<and> written (log st') = written (log st)))"
proof (cases yf)
  case None
  with assms(2) have "write_chunk E d b sch st c = (r, st')" by (simp add: process_chunk_def)
  from write_chunk_written [OF assms(1) this] None show ?thesis by (simp add: prepared_def)
next
  case (Some bnd)
  show ?thesis
  proof (cases "year_col \<in> set (columns c)")
    case False
    with Some assms(2) have "write_chunk E d b sch st c = (r, st')" by (simp add: process_chunk_def)
    from write_chunk_written [OF assms(1) this] Some False show ?thesis by (simp add: prepared_def)
  next
    case True
    let ?ps = "col_parser (to_num E) c year_col"
    let ?c' = "c\<lparr>rows := map (set_cell year_col (numeric_cell ?ps))
        (filter (year_parses_within ?ps bnd) (rows c))\<rparr>"
    let ?st0 = "st\<lparr>filtered_rows := filtered_rows st + (length (rows c) - length (rows ?c'))\<rparr>"
    show ?thesis
    proof (cases "rows ?c' = []")
      case True
      with \<open>year_col \<in> set (columns c)\<close> Some assms(2) show ?thesis
        by (auto simp: process_chunk_def Let_def prepared_def apply_year_filter_eq)
    next
      case False
      with \<open>year_col \<in> set (columns c)\<close> Some assms(2)
      have wc: "write_chunk E d b sch ?st0 ?c' = (r, st')"
        by (auto simp: process_chunk_def Let_def apply_year_filter_eq)
      from assms(1) have "shard_inv E d b ?st0" by simp
      from write_chunk_written [OF this wc] False \<open>year_col \<in> set (columns c)\<close> Some show ?thesis
        by (auto simp: prepared_def Let_def split: sum.splits)
    qed
  qed
qed

lemma run_chunks_inv:
  assumes "shard_inv E d b st"
  shows "shard_inv E d b (snd (run_chunks E d b sch yf st stream))"
  using assms
proof (induction stream arbitrary: st)
  case Nil
  then show ?case by simp
next
  case (Cons item stream)
  show ?case
  proof (cases item)
    case (Inl e)
    with Cons.prems show ?thesis by simp
  next
    case (Inr c)
    obtain r st1 where pc: "process_chunk E d b sch yf st c = (r, st1)"
      by (cases "process_chunk E d b sch yf st c")
    from process_chunk_inv [OF Cons.prems, of sch yf c] pc have inv1: "shard_inv E d b st1" by simp
    show ?thesis
    proof (cases r)
      case None
      with Inr pc Cons.IH [OF inv1] show ?thesis by simp
    next
      case (Some e)
      with Inr pc inv1 show ?thesis by simp
    qed
  qed
qed



subsection \<open>What the loop writes\<close>

lemma run_chunks_written_all:
  assumes "shard_inv E d b st" and "list_all Q (written (log st))"
    and "\<And>c c0 t. c \<in> set (stream_chunks stream) \<Longrightarrow> prepared (to_num E) yf c = Some c0
           \<Longrightarrow> coerce_schema (to_num E) sch c0 = Inr t \<Longrightarrow> Q t"
  shows "list_all Q (written (log (snd (run_chunks E d b sch yf st stream))))"
  using assms
proof (induction stream arbitrary: st)
  case Nil
  then show ?case by simp
next
  case (Cons item stream)
  show ?case
  proof (cases item)
    case (Inl e)
    with Cons.prems show ?thesis by simp
  next
    case (Inr c)
    obtain r st1 where pc: "process_chunk E d b sch yf st c = (r, st1)"
      by (cases "process_chunk E d b sch yf st c")
    from process_chunk_inv [OF Cons.prems(1), of sch yf c] pc have inv1: "shard_inv E d b st1" by simp
    have q: "Q t" if "prepared (to_num E) yf c = Some c0" "coerce_schema (to_num E) sch c0 = Inr t" for c0 t
      using Cons.prems(3) [of c c0 t] that Inr by simp
    from process_chunk_written [OF Cons.prems(1) pc] Cons.prems(2) q
    have w1: "list_all Q (written (log st1))"
      by (auto split: option.splits sum.splits)
    have rest: "Q t" if "c' \<in> set (stream_chunks stream)" "prepared (to_num E) yf c' = Some c0"
      "coerce_schema (to_num E) sch c0 = Inr t" for c' c0 t
      using Cons.prems(3) [of c' c0 t] that Inr by simp
    show ?thesis
    proof (cases r)
      case None
      with Inr pc Cons.IH [OF inv1 w1 rest] show ?thesis by simp
    next
      case (Some e)
      with Inr pc w1 show ?thesis by simp
    qed
  qed
qed

lemma run_chunks_written_exact:
  assumes "shard_inv E d b st" and "run_chunks E d b sch yf st stream = (None, st')"
  shows "\<exists>ts. mapE (coerce_schema (to_num E) sch)
                 (List.map_filter (prepared (to_num E) yf) (stream_chunks stream)) = Inr ts
            \<and> written (log st') = written (log st) @ ts"
  using assms
proof (induction stream arbitrary: st)
  case Nil
  then show ?case by simp
next
  case (Cons item stream)
  show ?case
  proof (cases item)
    case (Inl e)
    with Cons.prems show ?thesis by simp
  next
    case (Inr c)
    obtain r st1 where pc: "process_chunk E d b sch yf st c = (r, st1)"
      by (cases "process_chunk E d b sch yf st c")
    from process_chunk_inv [OF Cons.prems(1), of sch yf c] pc have inv1: "shard_inv E d b st1" by simp
    from Cons.prems(2) Inr pc have r: "r = None"
      and rc: "run_chunks E d b sch yf st1 stream = (None, st')"
      by (cases r; simp)+
    from Cons.IH [OF inv1 rc] obtain ts
      where ts: "mapE (coerce_schema (to_num E) sch)
          (List.map_filter (prepared (to_num E) yf) (stream_chunks stream)) = Inr ts"
        and w: "written (log st') = written (log st1) @ ts"
      by blast
    show ?thesis
    proof (cases "prepared (to_num E) yf c")
      case None
      with process_chunk_written [OF Cons.prems(1) pc] have "written (log st1) = written (log st)"
        by simp
      with ts w None Inr show ?thesis by simp
    next
      case (Some c0)
      with process_chunk_written [OF Cons.prems(1) pc] r obtain t
        where "coerce_schema (to_num E) sch c0 = Inr t" "written (log st1) = written (log st) @ [t]"
        by (auto split: sum.splits)
      with ts w Some Inr show ?thesis by simp
    qed
  qed
qed

subsection \<open>The state after the loop\<close>

lemma appended_closed: "append_follows_close l \<Longrightarrow> set (appended l) \<subseteq> set (closed_paths l)"
proof (induction l rule: append_follows_close.induct)
  case (2 p l)
  then show ?case by (cases l rule: closed_paths.cases) auto
qed auto

lemma contents_written: "set (contents l p) \<subseteq> set (written l)"
  by (induction l rule: written.induct) auto

lemma finish_props:
  assumes inv: "shard_inv E d b st"
  shows "output_files (finish st) = map (part_path d b) [1..<Suc (length (output_files (finish st)))]"
    and "appended (log (finish st)) = output_files (finish st)"
    and "opened (log (finish st)) = output_files (finish st)"
    and "open_writers (log (finish st)) = []"
    and "closed_untouched (log (finish st))"
    and "append_follows_close (log (finish st))"
    and "one_writer (log (finish st))"
    and "sealed_when_full E (log (finish st))"
    and "no_pending_write (log (finish st))"
    and "concat (map (contents (log (finish st))) (output_files (finish st))) = written (log (finish st))"
    and "written (log (finish st)) = written (log st)"
proof -
  have all: "output_files (finish st) = map (part_path d b) [1..<Suc (length (output_files (finish st)))]
    \<and> appended (log (finish st)) = output_files (finish st)
    \<and> opened (log (finish st)) = output_files (finish st)
    \<and> open_writers (log (finish st)) = []
    \<and> closed_untouched (log (finish st))
    \<and> append_follows_close (log (finish st))
    \<and> one_writer (log (finish st))
    \<and> sealed_when_full E (log (finish st))
    \<and> no_pending_write (log (finish st))
    \<and> concat (map (contents (log (finish st))) (output_files (finish st))) = written (log (finish st))
    \<and> written (log (finish st)) = written (log st)"
  proof (cases "current_writer st")
    case None
    from inv [unfolded shard_inv_def None option.case]
    have files: "output_files st = map (part_path d b) [1..<part_num st]"
      and rest: "appended (log st) = output_files st" "opened (log st) = output_files st"
        "open_writers (log st) = []" "closed_untouched (log st)" "append_follows_close (log st)"
        "one_writer (log st)" "sealed_when_full E (log st)" "no_pending_write (log st)"
        "concat (map (contents (log st)) (output_files st)) = written (log st)"
      and n: "1 \<le> part_num st"
      by blast+
    from files n have len: "Suc (length (output_files st)) = part_num st" by simp
    have fin: "finish st = st" using None by (simp add: finish_def)
    show ?thesis unfolding fin len using files rest by simp
  next
    case (Some f)
    from inv [unfolded shard_inv_def Some option.case]
    have files: "output_files st = map (part_path d b) [1..<part_num st]"
      and f: "f = part_path d b (part_num st)"
      and rest: "appended (log st) = output_files st" "opened (log st) = output_files st @ [f]"
        "open_writers (log st) = [f]" "closed_untouched (log st)" "append_follows_close (log st)"
        "one_writer (log st)" "sealed_when_full E (log st)"
        "concat (map (contents (log st)) (output_files st)) @ contents (log st) f = written (log st)"
      and nf: "\<not> full_write_pending E (log st)"
      and n: "1 \<le> part_num st"
      by blast+
    from files n have len: "Suc (Suc (length (output_files st))) = Suc (part_num st)" by simp
    have up: "[1..<Suc (part_num st)] = [1..<part_num st] @ [part_num st]"
      using n by simp
    have fin: "finish st = st\<lparr>log := EvAppend f # EvClose f # log st,
        output_files := output_files st @ [f]\<rparr>"
      using Some by (simp add: finish_def)
    have fw: "follows_write E (EvClose f) (log st)"
      using nf by (rule follows_write_not_full)
    show ?thesis unfolding fin
      using files [symmetric] f [symmetric] rest fw len up
      by (simp add: map_contents_other)
  qed
  from all show "output_files (finish st) = map (part_path d b) [1..<Suc (length (output_files (finish st)))]"
    and "appended (log (finish st)) = output_files (finish st)"
    and "opened (log (finish st)) = output_files (finish st)"
    and "open_writers (log (finish st)) = []"
    and "closed_untouched (log (finish st))"
    and "append_follows_close (log (finish st))"
    and "one_writer (log (finish st))"
    and "sealed_when_full E (log (finish st))"
    and "no_pending_write (log (finish st))"
    and "concat (map (contents (log (finish st))) (output_files (finish st))) = written (log (finish st))"
    and "written (log (finish st)) = written (log st)"
    by blast+
qed

lemma cleanup_props:
  assumes inv: "shard_inv E d b st"
  shows "opened (log (cleanup st)) = map (part_path d b) [1..<Suc (length (opened (log (cleanup st))))]"
    and "open_writers (log (cleanup st)) = []"
    and "closed_untouched (log (cleanup st))"
    and "append_follows_close (log (cleanup st))"
    and "one_writer (log (cleanup st))"
    and "sealed_when_full E (log (cleanup st))"
    and "no_pending_write (log (cleanup st))"
    and "written (log (cleanup st)) = written (log st)"
    and "contents (log (cleanup st)) p = contents (log st) p"
    and "set (output_files st) \<subseteq> set (closed_paths (log st))"
proof -
  have all: "opened (log (cleanup st)) = map (part_path d b) [1..<Suc (length (opened (log (cleanup st))))]
    \<and> open_writers (log (cleanup st)) = []
    \<and> closed_untouched (log (cleanup st))
    \<and> append_follows_close (log (cleanup st))
    \<and> one_writer (log (cleanup st))
    \<and> sealed_when_full E (log (cleanup st))
    \<and> no_pending_write (log (cleanup st))
    \<and> written (log (cleanup st)) = written (log st)
    \<and> contents (log (cleanup st)) p = contents (log st) p
    \<and> set (output_files st) \<subseteq> set (closed_paths (log st))"
  proof (cases "current_writer st")
    case None
    from inv [unfolded shard_inv_def None option.case]
    have files: "output_files st = map (part_path d b) [1..<part_num st]"
      and rest: "appended (log st) = output_files st" "opened (log st) = output_files st"
        "open_writers (log st) = []" "closed_untouched (log st)" "append_follows_close (log st)"
        "one_writer (log st)" "sealed_when_full E (log st)" "no_pending_write (log st)"
      and n: "1 \<le> part_num st"
      by blast+
    from files n have len: "Suc (length (output_files st)) = part_num st" by simp
    have cl: "cleanup st = st" using None by (simp add: cleanup_def)
    from appended_closed [OF rest(5)] rest(1)
    have sub: "set (output_files st) \<subseteq> set (closed_paths (log st))" by simp
    show ?thesis unfolding cl rest(2) len using files rest sub by simp
  next
    case (Some f)
    from inv [unfolded shard_inv_def Some option.case]
    have files: "output_files st = map (part_path d b) [1..<part_num st]"
      and f: "f = part_path d b (part_num st)"
      and rest: "appended (log st) = output_files st" "opened (log st) = output_files st @ [f]"
        "open_writers (log st) = [f]" "closed_untouched (log st)" "append_follows_close (log st)"
        "one_writer (log st)" "sealed_when_full E (log st)"
      and nf: "\<not> full_write_pending E (log st)"
      and n: "1 \<le> part_num st"
      by blast+
    from files n have len: "Suc (length (output_files st @ [f])) = Suc (part_num st)" by simp
    have up: "[1..<Suc (part_num st)] = [1..<part_num st] @ [part_num st]"
      using n by simp
    have cl: "cleanup st = st\<lparr>log := EvClose f # log st\<rparr>"
      using Some by (simp add: cleanup_def)
    have fw: "follows_write E (EvClose f) (log st)"
      using nf by (rule follows_write_not_full)
    from appended_closed [OF rest(5)] rest(1)
    have sub: "set (output_files st) \<subseteq> set (closed_paths (log st))" by simp
    have op: "opened (log (st\<lparr>log := EvClose f # log st\<rparr>)) = output_files st @ [f]"
      using rest(2) by simp
    show ?thesis unfolding cl op len
      using files [symmetric] f [symmetric] rest fw up sub
      by simp
  qed
  from all show "opened (log (cleanup st)) = map (part_path d b) [1..<Suc (length (opened (log (cleanup st))))]"
    and "open_writers (log (cleanup st)) = []"
    and "closed_untouched (log (cleanup st))"
    and "append_follows_close (log (cleanup st))"
    and "one_writer (log (cleanup st))"
    and "sealed_when_full E (log (cleanup st))"
    and "no_pending_write (log (cleanup st))"
    and "written (log (cleanup st)) = written (log st)"
    and "contents (log (cleanup st)) p = contents (log st) p"
    and "set (output_files st) \<subseteq> set (closed_paths (log st))"
    by blast+
qed


subsection \<open>The outcomes of a conversion\<close>


lemma convert_cases:
  assumes "convert_large_csv_chunked E csv_path output_dir year_filter = (res, lg)"
  obtains (no_schema) e where "first_read E = Inl e" "res = Inl e" "lg = []"
  | (returned) sch st where "first_read E = Inr sch"
      "run_chunks E output_dir (stem E csv_path) sch year_filter init_state (chunk_stream E) = (None, st)"
      "shard_inv E output_dir (stem E csv_path) st"
      "res = Inr (output_files (finish st))" "lg = log (finish st)"
  | (raised) sch e st where "first_read E = Inr sch"
      "run_chunks E output_dir (stem E csv_path) sch year_filter init_state (chunk_stream E) = (Some e, st)"
      "shard_inv E output_dir (stem E csv_path) st"
      "res = Inl e" "lg = log (cleanup st)"
proof (cases "first_read E")
  case (Inl e)
  with assms have "res = Inl e" "lg = []"
    by (simp_all add: convert_large_csv_chunked_def)
  with Inl show ?thesis by (rule no_schema)
next
  case (Inr sch)
  obtain r st
    where rc: "run_chunks E output_dir (stem E csv_path) sch year_filter init_state (chunk_stream E) = (r, st)"
    by (cases "run_chunks E output_dir (stem E csv_path) sch year_filter init_state (chunk_stream E)")
  from run_chunks_inv [OF shard_inv_init, of E output_dir "stem E csv_path" sch year_filter "chunk_stream E"] rc
  have inv: "shard_inv E output_dir (stem E csv_path) st" by simp
  show ?thesis
  proof (cases r)
    case None
    with assms Inr rc have "res = Inr (output_files (finish st))" "lg = log (finish st)"
      by (simp_all add: convert_large_csv_chunked_def)
    with Inr rc None inv show ?thesis by (auto intro: returned)
  next
    case (Some e)
    with assms Inr rc have "res = Inl e" "lg = log (cleanup st)"
      by (simp_all add: convert_large_csv_chunked_def)
    with Inr rc Some inv show ?thesis by (auto intro: raised)
  qed
qed




subsection \<open>Years inside the bounds stay inside under coercion\<close>

lemma fnum_within: "fnum_ge v lo \<Longrightarrow> fnum_le v hi \<Longrightarrow> cell_within lo hi (Float v)"
  by (cases v) simp_all

lemma year_in_range_within: "year_in_range (lo, hi) r \<Longrightarrow> year_within lo hi r"
  by (auto simp: year_in_range_def year_within_def fnum_within split: option.splits cell.splits)

lemma cell_within_numeric: "cell_within lo hi v \<Longrightarrow> numeric_cell ps v = v"
  by (induction lo hi v rule: cell_within.induct) simp_all

lemma cell_within_astype:
  "cell_within lo hi v \<Longrightarrow> astype_Int64 v = Inr v' \<Longrightarrow> cell_within lo hi v'"
proof (induction lo hi v rule: cell_within.induct)
  case (1 lo hi q)
  from "1.prems"(2) have q: "of_int \<lfloor>q\<rfloor> = q" and v': "v' = Int64 \<lfloor>q\<rfloor>"
    by (auto split: if_splits)
  from "1.prems"(1) have "of_int lo \<le> (of_int \<lfloor>q\<rfloor> :: rat)" "(of_int \<lfloor>q\<rfloor> :: rat) \<le> of_int hi"
    by (simp_all add: q)
  then have "lo \<le> \<lfloor>q\<rfloor>" "\<lfloor>q\<rfloor> \<le> hi" by (simp_all only: of_int_le_iff)
  with v' show ?case by simp
qed auto

lemma year_within_Cons:
  "year_within lo hi (kv # r) = (if fst kv = year_col then cell_within lo hi (snd kv) else year_within lo hi r)"
  by (cases kv) (simp add: year_within_def)

lemma year_within_try_cell:
  assumes "mapE (try_cell c g) r = Inr r'" and "year_within lo hi r"
    and g: "\<And>v v'. cell_within lo hi v \<Longrightarrow> g v = Inr v' \<Longrightarrow> cell_within lo hi v'"
  shows "year_within lo hi r'"
  using assms(1,2)
proof (induction r arbitrary: r')
  case Nil
  then show ?case by simp
next
  case (Cons kv r)
  from Cons.prems(1) obtain kv' r0 where r': "r' = kv' # r0"
    and kv: "try_cell c g kv = Inr kv'" and r0: "mapE (try_cell c g) r = Inr r0"
    unfolding mapE_Cons_Inr by blast
  from kv have k: "fst kv' = fst kv"
    by (auto simp: try_cell_def split: if_splits sum.splits)
  show ?case
  proof (cases "fst kv = year_col")
    case True
    with Cons.prems(2) have cw: "cell_within lo hi (snd kv)" by (simp add: year_within_Cons)
    from kv have "snd kv' = snd kv \<or> g (snd kv) = Inr (snd kv')"
      by (auto simp: try_cell_def split: if_splits sum.splits)
    with cw g have "cell_within lo hi (snd kv')" by auto
    with True k r' show ?thesis by (simp add: year_within_Cons)
  next
    case False
    with Cons.prems(2) have "year_within lo hi r" by (simp add: year_within_Cons)
    from Cons.IH [OF r0 this] False k r' show ?thesis by (simp add: year_within_Cons)
  qed
qed

lemma list_all2_list_all:
  assumes "list_all2 R xs ys" and "list_all P xs" and "\<And>x y. R x y \<Longrightarrow> P x \<Longrightarrow> Q y"
  shows "list_all Q ys"
  using assms by (induction rule: list_all2_induct) auto

lemma year_within_set_cell:
  assumes "year_within lo hi r"
  shows "year_within lo hi (set_cell c (numeric_cell ps) r)"
proof -
  have "mapE (try_cell c (\<lambda>v. Inr (numeric_cell ps v))) r = Inr (set_cell c (numeric_cell ps) r)"
    by (rule try_cell_total)
  from this assms show ?thesis
    by (rule year_within_try_cell) (auto simp: cell_within_numeric)
qed

lemma coerce_field_year:
  assumes "coerce_field pc field df = Inr df'" and "list_all (year_within lo hi) (rows df)"
  shows "list_all (year_within lo hi) (rows df')"
proof -
  obtain c T where field: "field = (c, T)" by (cases field)
  let ?ps = "pc (col_values c (rows df))"
  show ?thesis
  proof (cases "T = OtherT \<or> c \<notin> set (columns df)")
    case True
    with assms field show ?thesis by (cases T) auto
  next
    case False
    then have c: "c \<in> set (columns df)" and T: "T = IntegerT \<or> T = FloatingT"
      by (cases T; simp)+
    from T show ?thesis
    proof
      assume "T = FloatingT"
      with assms field c show ?thesis
        by (auto simp: to_numeric_def assign_col_def list_all_iff year_within_set_cell)
    next
      assume "T = IntegerT"
      with assms(1) field c
      have m: "mapE (mapE (try_cell c (\<lambda>v. astype_Int64 (numeric_cell ?ps v)))) (rows df) = Inr (rows df')"
        by (auto simp: try_assign_col_def to_numeric_def assign_col_def mapE_map try_cell_set_cell
            split: sum.splits)
      then have "list_all2 (\<lambda>r r'. mapE (try_cell c (\<lambda>v. astype_Int64 (numeric_cell ?ps v))) r = Inr r')
          (rows df) (rows df')"
        by (simp add: mapE_Inr_iff)
      from this assms(2) show ?thesis
      proof (rule list_all2_list_all)
        fix r r'
        assume "mapE (try_cell c (\<lambda>v. astype_Int64 (numeric_cell ?ps v))) r = Inr r'"
          and "year_within lo hi r"
        then show "year_within lo hi r'"
          by (rule year_within_try_cell) (auto simp: cell_within_numeric dest: cell_within_astype)
      qed
    qed
  qed
qed

lemma coerce_schema_year:
  "coerce_schema pc sch df = Inr df' \<Longrightarrow> list_all (year_within lo hi) (rows df)
     \<Longrightarrow> list_all (year_within lo hi) (rows df')"
proof (induction sch arbitrary: df)
  case Nil
  then show ?case by simp
next
  case (Cons field sch)
  from Cons.prems(1) obtain df1 where f: "coerce_field pc field df = Inr df1"
    and s: "coerce_schema pc sch df1 = Inr df'"
    by (auto split: sum.splits)
  from coerce_field_year [OF f Cons.prems(2)] have "list_all (year_within lo hi) (rows df1)" .
  from Cons.IH [OF s this] show ?case .
qed

lemma prepared_year:
  assumes "prepared pc (Some (lo, hi)) c = Some c0" and "year_col \<in> set (columns c)"
  shows "list_all (year_within lo hi) (rows c0)"
proof -
  let ?ps = "col_parser pc c year_col"
  from assms have "rows c0 = map (set_cell year_col (numeric_cell ?ps))
      (filter (year_parses_within ?ps (lo, hi)) (rows c))"
    by (auto simp: prepared_def Let_def split: if_splits)
  moreover have "year_within lo hi (set_cell year_col (numeric_cell ?ps) r)"
    if "year_parses_within ?ps (lo, hi) r" for r
    using that year_in_range_set_cell [of "(lo, hi)" ?ps r] by (simp add: year_in_range_within)
  ultimately show ?thesis by (simp add: list_all_iff)
qed

subsection \<open>Rows of the prepared chunks\<close>

lemma set_cell_keys: "map fst (set_cell c g r) = map fst r"
  by (induction r) (auto simp: set_cell_def)

lemma prepared_rows:
  "prepared pc yf c = None \<Longrightarrow> kept_rows pc yf c = []"
  "prepared pc yf c = Some c0 \<Longrightarrow> wf_frame c \<Longrightarrow> wf_frame c0"
  by (auto simp: prepared_def kept_rows_def Let_def wf_frame_def list_all_iff set_cell_keys
      split: option.splits if_splits)

lemma typed_entry_same:
  assumes "typed_entry P sch kv = Inr kv'"
  shows "fst kv' = fst kv"
    and "field_type sch (fst kv) = OtherT \<Longrightarrow> snd kv' = snd kv"
    and "field_type sch (fst kv) = IntegerT \<Longrightarrow> nullable_int (snd kv')"
  using assms
  by (auto simp: typed_entry_def split: sum.splits dest: astype_Int64_nullable)

lemma typed_row_same:
  assumes "typed_row P sch r = Inr r'"
  shows "same_row sch yf r r'"
proof -
  from assms have "list_all2 (\<lambda>kv kv'. typed_entry P sch kv = Inr kv') r r'"
    by (simp add: typed_row_def mapE_Inr_iff)
  then have "list_all2 (same_entry sch yf) r r'"
    by (rule list_all2_mono) (simp add: same_entry_def typed_entry_same)
  then show ?thesis by (simp add: same_row_def)
qed

lemma typed_row_same_year:
  assumes "typed_row P sch (set_cell year_col g r) = Inr r'"
  shows "same_row sch (Some yf) r r'"
proof -
  let ?h = "\<lambda>kv. if fst kv = year_col then (fst kv, g (snd kv)) else kv"
  have sc: "set_cell year_col g r = map ?h r"
    by (induction r) (auto simp: set_cell_def)
  from assms have "list_all2 (\<lambda>kv kv'. typed_entry P sch kv = Inr kv') (map ?h r) r'"
    by (simp add: typed_row_def mapE_Inr_iff sc)
  then have "list_all2 (\<lambda>kv kv'. typed_entry P sch (?h kv) = Inr kv') r r'"
    by (simp add: list_all2_map1)
  then have "list_all2 (same_entry sch (Some yf)) r r'"
  proof (rule list_all2_mono)
    fix kv kv'
    assume t: "typed_entry P sch (?h kv) = Inr kv'"
    have k: "fst (?h kv) = fst kv" by simp
    note s = typed_entry_same [OF t, unfolded k]
    have "snd kv' = snd kv" if "field_type sch (fst kv) = OtherT" "fst kv \<noteq> year_col"
      using s(2) that by simp
    with s(1,3) show "same_entry sch (Some yf) kv kv'"
      by (simp add: same_entry_def)
  qed
  then show ?thesis by (simp add: same_row_def)
qed

lemma prepared_same:
  assumes "distinct (map fst sch)" and "wf_frame c"
    and "prepared pc yf c = Some c0" and "coerce_schema pc sch c0 = Inr t"
  shows "list_all2 (same_row sch yf) (kept_rows pc yf c) (rows t)"
proof -
  from prepared_rows(2) [OF assms(3,2)] have wf0: "wf_frame c0" .
  from assms(4) have m: "mapE (typed_row (col_parser pc c0) sch) (rows c0) = Inr (rows t)"
    by (auto simp: coerce_schema_iff [OF assms(1) wf0])
  then have l: "list_all2 (\<lambda>r r'. typed_row (col_parser pc c0) sch r = Inr r') (rows c0) (rows t)"
    by (simp add: mapE_Inr_iff)
  show ?thesis
  proof (cases "\<exists>bnd. yf = Some bnd \<and> year_col \<in> set (columns c)")
    case False
    with assms(3) have "c0 = c" "kept_rows pc yf c = rows c"
      by (auto simp: prepared_def kept_rows_def split: option.splits)
    with l show ?thesis
      by (auto elim!: list_all2_mono intro: typed_row_same)
  next
    case True
    then obtain bnd where yf: "yf = Some bnd" and y: "year_col \<in> set (columns c)" by blast
    let ?ps = "col_parser pc c year_col"
    from assms(3) yf y
    have r0: "rows c0 = map (set_cell year_col (numeric_cell ?ps)) (kept_rows pc yf c)"
      by (auto simp: prepared_def kept_rows_def Let_def split: if_splits)
    from l have "list_all2 (\<lambda>r r'. typed_row (col_parser pc c0) sch
        (set_cell year_col (numeric_cell ?ps) r) = Inr r') (kept_rows pc yf c) (rows t)"
      by (simp add: r0 list_all2_map1)
    then show ?thesis
      unfolding yf by (rule list_all2_mono) (rule typed_row_same_year)
  qed
qed

lemma same_rows_of_tables:
  assumes "distinct (map fst sch)" and "list_all wf_frame chunks"
    and "mapE (coerce_schema pc sch) (List.map_filter (prepared pc yf) chunks) = Inr ts"
  shows "list_all2 (same_row sch yf) (concat (map (kept_rows pc yf) chunks)) (concat (map rows ts))"
  using assms(2,3)
proof (induction chunks arbitrary: ts)
  case Nil
  then show ?case by simp
next
  case (Cons c chunks)
  from Cons.prems(1) have wfc: "wf_frame c" and wfs: "list_all wf_frame chunks" by simp_all
  show ?case
  proof (cases "prepared pc yf c")
    case None
    with Cons.prems(2) have "mapE (coerce_schema pc sch) (List.map_filter (prepared pc yf) chunks) = Inr ts"
      by simp
    from Cons.IH [OF wfs this] prepared_rows(1) [OF None] show ?thesis by simp
  next
    case (Some c0)
    with Cons.prems(2)
    have "mapE (coerce_schema pc sch) (c0 # List.map_filter (prepared pc yf) chunks) = Inr ts"
      by (simp only: List.map_filter_simps option.case)
    then obtain t ts' where ts: "ts = t # ts'"
      and t: "coerce_schema pc sch c0 = Inr t"
      and ts': "mapE (coerce_schema pc sch) (List.map_filter (prepared pc yf) chunks) = Inr ts'"
      unfolding mapE_Cons_Inr by blast
    from prepared_same [OF assms(1) wfc Some t] Cons.IH [OF wfs ts'] ts show ?thesis
      by (simp add: list_all2_appendI)
  qed
qed

lemma run_chunks_no_read_error:
  "run_chunks E d b sch yf st stream = (None, st') \<Longrightarrow> Inl e \<notin> set stream"
proof (induction stream arbitrary: st)
  case Nil
  then show ?case by simp
next
  case (Cons item stream)
  then show ?case
    by (cases item) (auto split: prod.splits option.splits)
qed




subsection \<open>The batch job\<close>

lemma convert_files_acc:
  "convert_files M d yf files (a, p) =
     (a @ concat (map fst (map (file_result M d yf) files)),
      p @ concat (map snd (map (file_result M d yf) files)))"
proof (induction files arbitrary: a p)
  case Nil
  show ?case by simp
next
  case (Cons f files)
  show ?case
  proof (cases "path_exists M f")
    case False
    then show ?thesis by (simp add: Cons.IH file_result_def)
  next
    case True
    then show ?thesis
      by (cases "convert_file M d yf f") (simp_all add: Cons.IH file_result_def)
  qed
qed

lemma convert_categories_acc:
  "convert_categories M cats (a, p) =
     (a @ concat (map fst (concat (map (category_results M) cats))),
      p @ concat (map snd (concat (map (category_results M) cats))))"
proof (induction cats arbitrary: a p)
  case Nil
  show ?case by simp
next
  case (Cons entry cats)
  obtain category files where entry: "entry = (category, files)" by (cases entry)
  show ?case
    by (simp add: entry convert_files_acc Cons.IH category_results_def)
qed




subsection \<open>The slices of the small-file converter\<close>

lemma slices_length: "length (slices df rps is) \<le> length is"
  by (induction "is") auto

lemma slices_bounds:
  "0 < rps \<Longrightarrow> s \<in> set (slices df rps is) \<Longrightarrow> 0 < length s \<and> length s \<le> rps"
proof (induction "is")
  case Nil
  then show ?case by simp
next
  case (Cons i "is")
  show ?case
  proof (cases "length df \<le> i * rps")
    case True
    with Cons.prems show ?thesis by simp
  next
    case False
    with Cons.prems(2) have "s = take (min ((i + 1) * rps) (length df) - i * rps) (drop (i * rps) df)
        \<or> s \<in> set (slices df rps is)"
      by auto
    then show ?thesis
    proof
      assume "s = take (min ((i + 1) * rps) (length df) - i * rps) (drop (i * rps) df)"
      with False Cons.prems(1) show ?thesis by (auto simp: min_def)
    next
      assume "s \<in> set (slices df rps is)"
      with Cons.IH Cons.prems(1) show ?thesis by simp
    qed
  qed
qed

lemma slice_take:
  "take (min ((j + 1) * rps) (length df) - j * rps) (drop (j * rps) df) = take rps (drop (j * rps) df)"
  "take (min (rps + j * rps) (length df) - j * rps) (drop (j * rps) df) = take rps (drop (j * rps) df)"
  by (simp_all add: min_def)

lemma slices_concat:
  "0 < rps \<Longrightarrow> concat (slices df rps [j..<N]) = drop (j * rps) (take (N * rps) df)"
proof (induction "N - j" arbitrary: j)
  case 0
  from "0.hyps" have Nj: "N \<le> j" by simp
  then have "N * rps \<le> j * rps" by (rule mult_le_mono1)
  moreover have "length (take (N * rps) df) \<le> N * rps" by simp
  ultimately have "length (take (N * rps) df) \<le> j * rps" by (rule order_trans [rotated])
  then have "drop (j * rps) (take (N * rps) df) = []" by (rule drop_all)
  with Nj show ?case by simp
next
  case (Suc m)
  then have j: "j < N" and m: "m = N - Suc j" by simp_all
  from j have up: "[j..<N] = j # [Suc j..<N]" by (rule upt_conv_Cons)
  show ?case
  proof (cases "length df \<le> j * rps")
    case True
    then show ?thesis by (simp add: up)
  next
    case False
    let ?ys = "drop (j * rps) df"
    from j obtain k where k: "N = Suc j + k" using less_iff_Suc_add by auto
    have "concat (slices df rps [j..<N]) = take rps ?ys @ concat (slices df rps [Suc j..<N])"
      using False by (simp add: up slice_take del: upt_Suc)
    also have "concat (slices df rps [Suc j..<N]) = drop (Suc j * rps) (take (N * rps) df)"
      using Suc.hyps(1) [OF m Suc.prems] .
    also have "\<dots> = take (k * rps) (drop rps ?ys)"
      by (simp add: drop_take k add.commute algebra_simps)
    also have "take rps ?ys @ take (k * rps) (drop rps ?ys) = take (rps + k * rps) ?ys"
      by (simp add: take_add)
    also have "\<dots> = drop (j * rps) (take (N * rps) df)"
      by (simp add: drop_take k algebra_simps)
    finally show ?thesis .
  qed
qed

lemma slices_butlast:
  "0 < rps \<Longrightarrow> s \<in> set (butlast (slices df rps [j..<N])) \<Longrightarrow> length s = rps"
proof (induction "N - j" arbitrary: j)
  case 0
  then show ?case by simp
next
  case (Suc m)
  then have j: "j < N" and m: "m = N - Suc j" by simp_all
  from j have up: "[j..<N] = j # [Suc j..<N]" by (rule upt_conv_Cons)
  show ?case
  proof (cases "length df \<le> j * rps")
    case True
    with Suc.prems show ?thesis by (simp add: up)
  next
    case False
    let ?s = "take (min ((j + 1) * rps) (length df) - j * rps) (drop (j * rps) df)"
    let ?rest = "slices df rps [Suc j..<N]"
    have sl: "slices df rps [j..<N] = ?s # ?rest"
      using False by (simp add: up del: upt_Suc)
    show ?thesis
    proof (cases "?rest = []")
      case True
      with Suc.prems(2) sl show ?thesis by simp
    next
      case False
      with Suc.prems(2) sl have "s = ?s \<or> s \<in> set (butlast ?rest)" by auto
      then show ?thesis
      proof
        assume s: "s = ?s"
        from False have "Suc j < N" by (cases "Suc j < N") simp_all
        then have "[Suc j..<N] = Suc j # [Suc (Suc j)..<N]" by (rule upt_conv_Cons)
        with False have "\<not> length df \<le> Suc j * rps"
          by (auto simp del: upt_Suc split: if_splits)
        then have lt: "rps + j * rps < length df" by simp
        then have "rps < length df - j * rps" by linarith
        moreover from lt have "min ((j + 1) * rps) (length df) - j * rps = rps" by simp
        ultimately show ?thesis using s by simp
      next
        assume "s \<in> set (butlast ?rest)"
        with Suc.hyps(1) [OF m Suc.prems(1)] show ?thesis .
      qed
    qed
  qed
qed

lemma split_covers: "(n::nat) < (s div M + 1) * (n div (s div M + 1) + 1)"
proof -
  let ?N = "s div M + 1"
  have "0 < ?N" by simp
  have "n = ?N * (n div ?N) + n mod ?N" by (rule mult_div_mod_eq [symmetric])
  moreover have "n mod ?N < ?N" by simp
  ultimately have "n < ?N * (n div ?N) + ?N" by linarith
  then show ?thesis by (simp add: algebra_simps)
qed

lemma split_parts_slices:
  "split_parts S d b df rps is outs ops = (Inr files, ops') \<Longrightarrow>
     files = outs @ map (\<lambda>i. part_path d b (i + 1)) (take (length (slices df rps is)) is)
   \<and> ops' = rev (map2 ToParquet
               (map (\<lambda>i. part_path d b (i + 1)) (take (length (slices df rps is)) is))
               (slices df rps is)) @ ops"
proof (induction "is" arbitrary: outs ops)
  case Nil
  then show ?case by simp
next
  case (Cons i "is")
  show ?case
  proof (cases "length df \<le> i * rps")
    case True
    with Cons.prems show ?thesis by simp
  next
    case False
    let ?chunk = "take (min ((i + 1) * rps) (length df) - i * rps) (drop (i * rps) df)"
    let ?f = "part_path d b (i + 1)"
    from False Cons.prems have ne: "to_parquet_error S ?f ?chunk = None"
      by (cases "to_parquet_error S ?f ?chunk") (simp_all add: Let_def)
    with False Cons.prems
    have "split_parts S d b df rps is (outs @ [?f]) (ToParquet ?f ?chunk # ops) = (Inr files, ops')"
      by (simp add: Let_def)
    from Cons.IH [OF this] False show ?thesis by simp
  qed
qed




lemma map_part_path_upt:
  "map (\<lambda>i. part_path d b (i + 1)) [0..<m] = map (part_path d b) [1..<Suc m]"
proof -
  have "map (\<lambda>i. part_path d b (i + 1)) [0..<m] = map (part_path d b) (map Suc [0..<m])"
    by simp
  also have "map Suc [0..<m] = [Suc 0..<Suc m]" by (rule map_Suc_upt)
  finally show ?thesis by simp
qed




subsection \<open>Label replacement\<close>








section \<open>The small input, evaluated\<close>

lemma dec_ex: "dec (Suc 0) = ''1''" "dec 2 = ''2''" "dec 3 = ''3''" "dec 12 = ''12''"
  by (simp_all add: dec.simps digit_char_def)

lemma fmt_ex: "fmt_02d (Suc 0) = ''01''" "fmt_02d 2 = ''02''" "fmt_02d 3 = ''03''" "fmt_02d 12 = ''12''"
  by (simp_all add: fmt_02d_def dec_ex)

lemma part_path_ex:
  "part_path ''out'' ''collision'' (Suc 0) = ''out/collision_part01.parquet''"
  "part_path ''out'' ''collision'' 2 = ''out/collision_part02.parquet''"
  "part_path ''out'' ''collision'' 3 = ''out/collision_part03.parquet''"
  by (simp_all add: part_path_def fmt_ex)

lemma process_chunk_ex:
  "process_chunk ex_env ''out'' ''collision'' ex_schema (Some (2015, 2024)) init_state ex_chunk =
   (None, \<lparr>output_files = [], part_num = 1,
      current_writer = Some ''out/collision_part01.parquet'',
      current_size = 1000, total_rows = 1, filtered_rows = 2, rows_in_current_part = 1,
      log = [EvWrite ''out/collision_part01.parquet''
               \<lparr>columns = [''collision_year'', ''speed'', ''road''],
                rows = [[(''collision_year'', Int64 2016), (''speed'', Float (Fin (5 / 2))),
                         (''road'', Text ''A1'')]]\<rparr>,
             EvOpen ''out/collision_part01.parquet'']\<rparr>)"
  by (simp add: process_chunk_def write_chunk_def ensure_writer_def check_rollover_def seal_def
      apply_year_filter_def to_numeric_def assign_col_def set_cell_def ex_chunk_def ex_parse_def
      year_in_range_def year_col_def ex_schema_def try_assign_col_def try_cell_def ex_env_def
      init_state_def part_path_ex Let_def MAX_SIZE_BYTES_def MAX_SIZE_MB_def)

lemma convert_ex:
  "convert_large_csv_chunked ex_env ''data/collision.csv'' ''out'' (Some (2015, 2024)) =
   (Inr [''out/collision_part01.parquet''],
    [EvAppend ''out/collision_part01.parquet'', EvClose ''out/collision_part01.parquet'',
     EvWrite ''out/collision_part01.parquet''
       \<lparr>columns = [''collision_year'', ''speed'', ''road''],
        rows = [[(''collision_year'', Int64 2016), (''speed'', Float (Fin (5 / 2))),
                 (''road'', Text ''A1'')]]\<rparr>,
     EvOpen ''out/collision_part01.parquet''])"
proof -
  have "first_read ex_env = Inr ex_schema" "chunk_stream ex_env = [Inr ex_chunk]"
    "stem ex_env ''data/collision.csv'' = ''collision''"
    by (simp_all add: ex_env_def)
  then show ?thesis
    by (simp add: convert_large_csv_chunked_def process_chunk_ex finish_def)
qed

lemma part_path_ex2:
  "part_path ''out'' ''collision'' (Suc (Suc 0)) = ''out/collision_part02.parquet''"
  using part_path_ex(2) by (simp add: numeral_2_eq_2)

lemma process_ex_chunk:
  assumes "to_num E = (\<lambda>col. ex_parse)" and "write_error E = (\<lambda>l s t. None)"
  shows "process_chunk E d b ex_schema (Some (2015, 2024)) st ex_chunk =
     (let st1 = st\<lparr>filtered_rows := filtered_rows st + 2, total_rows := total_rows st + 1\<rparr>;
          f = fst (ensure_writer d b st1); st2 = snd (ensure_writer d b st1)
      in (None, check_rollover E f
            (st2\<lparr>log := EvWrite f ex_table # log st2,
                 rows_in_current_part := rows_in_current_part st2 + 1\<rparr>)))"
  using assms
  by (simp add: process_chunk_def write_chunk_def split_def
      apply_year_filter_def to_numeric_def assign_col_def set_cell_def ex_chunk_def ex_parse_def
      year_in_range_def year_col_def ex_schema_def try_assign_col_def try_cell_def
      ex_table_def Let_def)

lemma ex_env_fields:
  "to_num ex_env_roll = (\<lambda>col. ex_parse)" "write_error ex_env_roll = (\<lambda>l s t. None)"
  "to_num ex_env_fail = (\<lambda>col. ex_parse)" "write_error ex_env_fail = (\<lambda>l s t. None)"
  "first_read ex_env_roll = Inr ex_schema" "first_read ex_env_fail = Inr ex_schema"
  "stem ex_env_roll p = ''collision''" "stem ex_env_fail p = ''collision''"
  "chunk_stream ex_env_roll = [Inr ex_chunk, Inr ex_chunk, Inr ex_chunk]"
  "chunk_stream ex_env_fail = [Inr ex_chunk, Inl ParserError]"
  "path_stat ex_env_roll l q = Some (30000000 * length (contents l q))"
  "path_stat ex_env_fail l q = Some 1000"
  by (simp_all add: ex_env_roll_def ex_env_fail_def ex_env_def)

lemma roll_step1:
  "process_chunk ex_env_roll ''out'' ''collision'' ex_schema (Some (2015, 2024)) init_state ex_chunk =
   (None, \<lparr>output_files = [], part_num = 1,
      current_writer = Some ''out/collision_part01.parquet'',
      current_size = 30000000, total_rows = 1, filtered_rows = 2, rows_in_current_part = 1,
      log = [EvWrite ''out/collision_part01.parquet'' ex_table,
             EvOpen ''out/collision_part01.parquet'']\<rparr>)"
  by (simp add: process_ex_chunk ex_env_fields ensure_writer_def check_rollover_def seal_def
      init_state_def part_path_ex Let_def MAX_SIZE_BYTES_def MAX_SIZE_MB_def)

lemma roll_step2:
  "process_chunk ex_env_roll ''out'' ''collision'' ex_schema (Some (2015, 2024))
     \<lparr>output_files = [], part_num = 1,
      current_writer = Some ''out/collision_part01.parquet'',
      current_size = 30000000, total_rows = 1, filtered_rows = 2, rows_in_current_part = 1,
      log = [EvWrite ''out/collision_part01.parquet'' ex_table,
             EvOpen ''out/collision_part01.parquet'']\<rparr> ex_chunk =
   (None, \<lparr>output_files = [''out/collision_part01.parquet''], part_num = 2,
      current_writer = None,
      current_size = 60000000, total_rows = 2, filtered_rows = 4, rows_in_current_part = 2,
      log = [EvAppend ''out/collision_part01.parquet'', EvClose ''out/collision_part01.parquet'',
             EvWrite ''out/collision_part01.parquet'' ex_table,
             EvWrite ''out/collision_part01.parquet'' ex_table,
             EvOpen ''out/collision_part01.parquet'']\<rparr>)"
  by (simp add: process_ex_chunk ex_env_fields ensure_writer_def check_rollover_def seal_def
      Let_def MAX_SIZE_BYTES_def MAX_SIZE_MB_def)

lemma roll_step3:
  "process_chunk ex_env_roll ''out'' ''collision'' ex_schema (Some (2015, 2024))
     \<lparr>output_files = [''out/collision_part01.parquet''], part_num = 2,
      current_writer = None,
      current_size = 60000000, total_rows = 2, filtered_rows = 4, rows_in_current_part = 2,
      log = [EvAppend ''out/collision_part01.parquet'', EvClose ''out/collision_part01.parquet'',
             EvWrite ''out/collision_part01.parquet'' ex_table,
             EvWrite ''out/collision_part01.parquet'' ex_table,
             EvOpen ''out/collision_part01.parquet'']\<rparr> ex_chunk =
   (None, \<lparr>output_files = [''out/collision_part01.parquet''], part_num = 2,
      current_writer = Some ''out/collision_part02.parquet'',
      current_size = 30000000, total_rows = 3, filtered_rows = 6, rows_in_current_part = 1,
      log = [EvWrite ''out/collision_part02.parquet'' ex_table,
             EvOpen ''out/collision_part02.parquet'',
             EvAppend ''out/collision_part01.parquet'', EvClose ''out/collision_part01.parquet'',
             EvWrite ''out/collision_part01.parquet'' ex_table,
             EvWrite ''out/collision_part01.parquet'' ex_table,
             EvOpen ''out/collision_part01.parquet'']\<rparr>)"
  by (simp add: process_ex_chunk ex_env_fields ensure_writer_def check_rollover_def seal_def
      part_path_ex Let_def MAX_SIZE_BYTES_def MAX_SIZE_MB_def)

lemma run_roll_ex:
  "run_chunks ex_env_roll ''out'' ''collision'' ex_schema (Some (2015, 2024)) init_state
     [Inr ex_chunk, Inr ex_chunk, Inr ex_chunk] =
   (None, \<lparr>output_files = [''out/collision_part01.parquet''], part_num = 2,
      current_writer = Some ''out/collision_part02.parquet'',
      current_size = 30000000, total_rows = 3, filtered_rows = 6, rows_in_current_part = 1,
      log = [EvWrite ''out/collision_part02.parquet'' ex_table,
             EvOpen ''out/collision_part02.parquet'',
             EvAppend ''out/collision_part01.parquet'', EvClose ''out/collision_part01.parquet'',
             EvWrite ''out/collision_part01.parquet'' ex_table,
             EvWrite ''out/collision_part01.parquet'' ex_table,
             EvOpen ''out/collision_part01.parquet'']\<rparr>)"
  by (simp only: run_chunks.simps roll_step1 roll_step2 roll_step3 prod.case option.case)

lemma fail_step1:
  "process_chunk ex_env_fail ''out'' ''collision'' ex_schema (Some (2015, 2024)) init_state ex_chunk =
   (None, \<lparr>output_files = [], part_num = 1,
      current_writer = Some ''out/collision_part01.parquet'',
      current_size = 1000, total_rows = 1, filtered_rows = 2, rows_in_current_part = 1,
      log = [EvWrite ''out/collision_part01.parquet'' ex_table,
             EvOpen ''out/collision_part01.parquet'']\<rparr>)"
  by (simp add: process_ex_chunk ex_env_fields ensure_writer_def check_rollover_def seal_def
      init_state_def part_path_ex Let_def MAX_SIZE_BYTES_def MAX_SIZE_MB_def)

lemma run_fail_ex:
  "run_chunks ex_env_fail ''out'' ''collision'' ex_schema (Some (2015, 2024)) init_state
     [Inr ex_chunk, Inl ParserError] =
   (Some ParserError, \<lparr>output_files = [], part_num = 1,
      current_writer = Some ''out/collision_part01.parquet'',
      current_size = 1000, total_rows = 1, filtered_rows = 2, rows_in_current_part = 1,
      log = [EvWrite ''out/collision_part01.parquet'' ex_table,
             EvOpen ''out/collision_part01.parquet'']\<rparr>)"
  by (simp only: run_chunks.simps fail_step1 prod.case option.case)

lemma convert_roll_ex:
  "convert_large_csv_chunked ex_env_roll ''data/collision.csv'' ''out'' (Some (2015, 2024)) =
   (Inr [''out/collision_part01.parquet'', ''out/collision_part02.parquet''],
    [EvAppend ''out/collision_part02.parquet'', EvClose ''out/collision_part02.parquet'',
     EvWrite ''out/collision_part02.parquet'' ex_table,
     EvOpen ''out/collision_part02.parquet'',
     EvAppend ''out/collision_part01.parquet'', EvClose ''out/collision_part01.parquet'',
     EvWrite ''out/collision_part01.parquet'' ex_table,
     EvWrite ''out/collision_part01.parquet'' ex_table,
     EvOpen ''out/collision_part01.parquet''])"
  by (simp only: convert_large_csv_chunked_def ex_env_fields run_roll_ex sum.case prod.case option.case)
     (simp add: finish_def)

lemma convert_fail_ex:
  "convert_large_csv_chunked ex_env_fail ''data/collision.csv'' ''out'' (Some (2015, 2024)) =
   (Inl ParserError,
    [EvClose ''out/collision_part01.parquet'',
     EvWrite ''out/collision_part01.parquet'' ex_table,
     EvOpen ''out/collision_part01.parquet''])"
  by (simp only: convert_large_csv_chunked_def ex_env_fields run_fail_ex sum.case prod.case option.case)
     (simp add: cleanup_def)

section \<open>The year filter\<close>

text \<open>
  Claim C2, as amended. For a chunk that has the year column, processed with a year
  filter: the filter step raises nothing; the rows handed on to coercion and writing are
  exactly the rows whose year parses to a number inside the inclusive bounds, with the
  year made numeric; every other row is dropped and counted in \<open>filtered_rows\<close>; a chunk
  left empty is skipped. A row whose year does not parse is among the dropped rows. The
  number a year parses to is the one \<^verbatim>\<open>pd.to_numeric\<close> gives it in the year column of the
  chunk.
\<close>

theorem process_chunk_year_filter:
  assumes "year_col \<in> set (columns chunk)"
  shows "process_chunk E output_dir base_name master_schema (Some yf) st chunk =
     (let ps = col_parser (to_num E) chunk year_col;
          kept = filter (year_parses_within ps yf) (rows chunk);
          st' = st\<lparr>filtered_rows := filtered_rows st +
                   length (filter (\<lambda>r. \<not> year_parses_within ps yf r) (rows chunk))\<rparr>
      in if kept = [] then (None, st')
         else write_chunk E output_dir base_name master_schema st'
                (chunk\<lparr>rows := map (set_cell year_col (numeric_cell ps)) kept\<rparr>))
   \<and> (\<forall>ps r s. map_of r year_col = Some (Text s) \<and> ps s = None
          \<longrightarrow> \<not> year_parses_within ps yf r)"
proof
  show "\<forall>ps r s. map_of r year_col = Some (Text s) \<and> ps s = None
          \<longrightarrow> \<not> year_parses_within ps yf r"
    by (simp add: year_parses_within_def cell_parses_within_def)
  let ?ps = "col_parser (to_num E) chunk year_col"
  have len: "length (rows chunk) - length (filter (year_parses_within ?ps yf) (rows chunk))
      = length (filter (\<lambda>r. \<not> year_parses_within ?ps yf r) (rows chunk))"
    by (rule length_filter_compl)
  show "process_chunk E output_dir base_name master_schema (Some yf) st chunk =
     (let ps = col_parser (to_num E) chunk year_col;
          kept = filter (year_parses_within ps yf) (rows chunk);
          st' = st\<lparr>filtered_rows := filtered_rows st +
                   length (filter (\<lambda>r. \<not> year_parses_within ps yf r) (rows chunk))\<rparr>
      in if kept = [] then (None, st')
         else write_chunk E output_dir base_name master_schema st'
                (chunk\<lparr>rows := map (set_cell year_col (numeric_cell ps)) kept\<rparr>))"
    using assms by (simp add: process_chunk_def Let_def apply_year_filter_eq len [symmetric])
qed


theorem process_chunk_year_filter_witness:
  "year_col \<in> set (columns ex_chunk)
   \<and> map_of (rows ex_chunk ! 1) year_col = Some (Text ''n/a'')
   \<and> col_parser (to_num ex_env) ex_chunk year_col ''n/a'' = None
   \<and> \<not> year_parses_within (col_parser (to_num ex_env) ex_chunk year_col) (2015, 2024)
         (rows ex_chunk ! 1)
   \<and> filter (year_parses_within (col_parser (to_num ex_env) ex_chunk year_col) (2015, 2024))
        (rows ex_chunk) = [rows ex_chunk ! 0]
   \<and> process_chunk ex_env ''out'' ''collision'' ex_schema (Some (2015, 2024)) init_state ex_chunk =
       write_chunk ex_env ''out'' ''collision'' ex_schema (init_state\<lparr>filtered_rows := 2\<rparr>)
         (ex_chunk\<lparr>rows := [set_cell year_col
            (numeric_cell (col_parser (to_num ex_env) ex_chunk year_col)) (rows ex_chunk ! 0)]\<rparr>)"
proof -
  have p: "col_parser (to_num ex_env) ex_chunk year_col = ex_parse"
    by (simp add: col_parser_def ex_env_def)
  have h: "year_col \<in> set (columns ex_chunk)"
    by (simp add: year_col_def ex_chunk_def)
  have r: "map_of (rows ex_chunk ! 1) year_col = Some (Text ''n/a'')"
    by (simp add: year_col_def ex_chunk_def)
  have s: "ex_parse ''n/a'' = None"
    by (simp add: ex_parse_def)
  have k: "filter (year_parses_within ex_parse (2015, 2024)) (rows ex_chunk) = [rows ex_chunk ! 0]"
    by (simp add: year_parses_within_def cell_parses_within_def year_col_def ex_chunk_def
        ex_parse_def)
  have n: "filter (\<lambda>r. \<not> year_parses_within ex_parse (2015, 2024) r) (rows ex_chunk)
      = [rows ex_chunk ! 1, rows ex_chunk ! 2]"
    by (simp add: year_parses_within_def cell_parses_within_def year_col_def ex_chunk_def
        ex_parse_def)
  have f0: "filtered_rows init_state = 0" by (simp add: init_state_def)
  note t = process_chunk_year_filter [OF h, of ex_env "''out''" "''collision''" ex_schema
      "(2015, 2024)" init_state, unfolded p]
  from t r s have d: "\<not> year_parses_within ex_parse (2015, 2024) (rows ex_chunk ! 1)"
    by blast
  from t have "process_chunk ex_env ''out'' ''collision'' ex_schema (Some (2015, 2024)) init_state ex_chunk =
       write_chunk ex_env ''out'' ''collision'' ex_schema (init_state\<lparr>filtered_rows := 2\<rparr>)
         (ex_chunk\<lparr>rows := [set_cell year_col (numeric_cell ex_parse) (rows ex_chunk ! 0)]\<rparr>)"
    by (simp add: k n f0 Let_def eval_nat_numeral)
  with h r s d k show ?thesis unfolding p by blast
qed

text \<open>
  Claim C2, as worded, fails: the second row of the small input has a year that does not
  parse, and the shard the converter writes holds the first row only.
\<close>

theorem unparseable_year_row_is_dropped:
  "map_of (rows ex_chunk ! 1) year_col = Some (Text ''n/a'')
   \<and> col_parser (to_num ex_env) ex_chunk year_col ''n/a'' = None
   \<and> convert_large_csv_chunked ex_env ''data/collision.csv'' ''out'' (Some (2015, 2024)) =
      (Inr [''out/collision_part01.parquet''],
       [EvAppend ''out/collision_part01.parquet'', EvClose ''out/collision_part01.parquet'',
        EvWrite ''out/collision_part01.parquet''
          \<lparr>columns = [''collision_year'', ''speed'', ''road''],
           rows = [[(''collision_year'', Int64 2016), (''speed'', Float (Fin (5 / 2))),
                    (''road'', Text ''A1'')]]\<rparr>,
        EvOpen ''out/collision_part01.parquet''])"
  by (simp add: convert_ex)
     (simp add: col_parser_def year_col_def ex_chunk_def ex_env_def ex_parse_def)

section \<open>Shards: numbering, sealing and failure\<close>

text \<open>
  Claim C10. The list that \<^verbatim>\<open>convert_large_csv_chunked\<close> returns holds the shard paths with
  the part numbers 1, 2, 3 and so on, in this order; these are the paths appended in the
  log, each append is the event that follows the close of the writer on that path, so every
  returned path names a closed file and no writer is left open; and at every point of the
  log at most one writer is open.
\<close>

theorem returned_shards_numbered_and_closed:
  assumes "convert_large_csv_chunked E csv_path output_dir year_filter = (Inr files, lg)"
  shows "files = map (part_path output_dir (stem E csv_path)) [1..<Suc (length files)]
     \<and> appended lg = files \<and> append_follows_close lg
     \<and> set files \<subseteq> set (closed_paths lg) \<and> open_writers lg = [] \<and> one_writer lg"
  using assms
proof (cases rule: convert_cases)
  case (returned sch st)
  note p = finish_props [OF returned(3)]
  from appended_closed [OF p(6)] p(2)
  have "set (output_files (finish st)) \<subseteq> set (closed_paths (log (finish st)))" by simp
  with returned(4,5) p(1,2,4,6,7) show ?thesis by simp
qed simp_all

theorem returned_shards_numbered_and_closed_witness:
  "convert_large_csv_chunked ex_env_roll ''data/collision.csv'' ''out'' (Some (2015, 2024)) =
     (Inr [''out/collision_part01.parquet'', ''out/collision_part02.parquet''],
      [EvAppend ''out/collision_part02.parquet'', EvClose ''out/collision_part02.parquet'',
       EvWrite ''out/collision_part02.parquet'' ex_table,
       EvOpen ''out/collision_part02.parquet'',
       EvAppend ''out/collision_part01.parquet'', EvClose ''out/collision_part01.parquet'',
       EvWrite ''out/collision_part01.parquet'' ex_table,
       EvWrite ''out/collision_part01.parquet'' ex_table,
       EvOpen ''out/collision_part01.parquet''])
   \<and> [''out/collision_part01.parquet'', ''out/collision_part02.parquet''] =
       map (part_path ''out'' (stem ex_env_roll ''data/collision.csv'')) [1..<3]
   \<and> one_writer
      [EvAppend ''out/collision_part02.parquet'', EvClose ''out/collision_part02.parquet'',
       EvWrite ''out/collision_part02.parquet'' ex_table,
       EvOpen ''out/collision_part02.parquet'',
       EvAppend ''out/collision_part01.parquet'', EvClose ''out/collision_part01.parquet'',
       EvWrite ''out/collision_part01.parquet'' ex_table,
       EvWrite ''out/collision_part01.parquet'' ex_table,
       EvOpen ''out/collision_part01.parquet'']"
proof -
  note t = returned_shards_numbered_and_closed [OF convert_roll_ex]
  have len: "Suc (length [''out/collision_part01.parquet'', ''out/collision_part02.parquet'']) = 3"
    by simp
  from t have "[''out/collision_part01.parquet'', ''out/collision_part02.parquet''] =
       map (part_path ''out'' (stem ex_env_roll ''data/collision.csv''))
         [1..<Suc (length [''out/collision_part01.parquet'', ''out/collision_part02.parquet''])]"
    by (rule conjunct1)
  then have b: "[''out/collision_part01.parquet'', ''out/collision_part02.parquet''] =
       map (part_path ''out'' (stem ex_env_roll ''data/collision.csv'')) [1..<3]"
    unfolding len .
  from t have c: "one_writer
      [EvAppend ''out/collision_part02.parquet'', EvClose ''out/collision_part02.parquet'',
       EvWrite ''out/collision_part02.parquet'' ex_table,
       EvOpen ''out/collision_part02.parquet'',
       EvAppend ''out/collision_part01.parquet'', EvClose ''out/collision_part01.parquet'',
       EvWrite ''out/collision_part01.parquet'' ex_table,
       EvWrite ''out/collision_part01.parquet'' ex_table,
       EvOpen ''out/collision_part01.parquet'']"
    by blast
  from convert_roll_ex b c show ?thesis by (intro conjI)
qed


text \<open>
  Claim C4. Whatever the outcome of the conversion: the event that follows a write after
  which the shard measures at least 90% of the maximum size (45 MB of 50 MB) is the close
  of that shard, and no write is left pending at the end; a file whose writer has been
  closed is never opened or written again; and the shards are opened with the part numbers
  1, 2, 3 and so on, so the batch after a sealed shard opens the next number.
\<close>

theorem full_shard_sealed_before_next_batch:
  assumes "convert_large_csv_chunked E csv_path output_dir year_filter = (res, lg)"
  shows "sealed_when_full E lg \<and> no_pending_write lg \<and> closed_untouched lg
     \<and> opened lg = map (part_path output_dir (stem E csv_path)) [1..<Suc (length (opened lg))]"
  using assms
proof (cases rule: convert_cases)
  case (no_schema e)
  then show ?thesis by simp
next
  case (returned sch st)
  note p = finish_props [OF returned(3)]
  from p(1,3) have "opened (log (finish st)) =
      map (part_path output_dir (stem E csv_path)) [1..<Suc (length (opened (log (finish st))))]"
    by simp
  with returned(5) p(5,8,9) show ?thesis by simp
next
  case (raised sch e st)
  note p = cleanup_props [OF raised(3)]
  from raised(5) p(1,3,6,7) show ?thesis by simp
qed


theorem full_shard_sealed_before_next_batch_witness:
  "shard_full ex_env_roll
      [EvWrite ''out/collision_part01.parquet'' ex_table,
       EvWrite ''out/collision_part01.parquet'' ex_table,
       EvOpen ''out/collision_part01.parquet''] ''out/collision_part01.parquet''
   \<and> sealed_when_full ex_env_roll
      [EvAppend ''out/collision_part02.parquet'', EvClose ''out/collision_part02.parquet'',
       EvWrite ''out/collision_part02.parquet'' ex_table,
       EvOpen ''out/collision_part02.parquet'',
       EvAppend ''out/collision_part01.parquet'', EvClose ''out/collision_part01.parquet'',
       EvWrite ''out/collision_part01.parquet'' ex_table,
       EvWrite ''out/collision_part01.parquet'' ex_table,
       EvOpen ''out/collision_part01.parquet'']
   \<and> closed_untouched
      [EvAppend ''out/collision_part02.parquet'', EvClose ''out/collision_part02.parquet'',
       EvWrite ''out/collision_part02.parquet'' ex_table,
       EvOpen ''out/collision_part02.parquet'',
       EvAppend ''out/collision_part01.parquet'', EvClose ''out/collision_part01.parquet'',
       EvWrite ''out/collision_part01.parquet'' ex_table,
       EvWrite ''out/collision_part01.parquet'' ex_table,
       EvOpen ''out/collision_part01.parquet'']"
proof -
  note t = full_shard_sealed_before_next_batch [OF convert_roll_ex]
  have "shard_full ex_env_roll
      [EvWrite ''out/collision_part01.parquet'' ex_table,
       EvWrite ''out/collision_part01.parquet'' ex_table,
       EvOpen ''out/collision_part01.parquet''] ''out/collision_part01.parquet''"
    by (simp add: shard_full_def ex_env_fields MAX_SIZE_BYTES_def MAX_SIZE_MB_def)
  with t show ?thesis by blast
qed

text \<open>
  Claim C5. When the loop over the chunks raises an exception, the function raises the
  same exception to its caller after the handler has run: if a writer was open, its close
  is the last event of the log; no writer is open afterwards; the content of every file is
  what it was when the exception was raised; and the shards returned so far had been
  closed before.
\<close>

theorem open_shard_closed_before_reraise:
  assumes "first_read E = Inr master_schema"
    and "run_chunks E output_dir (stem E csv_path) master_schema year_filter init_state
           (chunk_stream E) = (Some e, st)"
  shows "convert_large_csv_chunked E csv_path output_dir year_filter = (Inl e, log (cleanup st))
     \<and> (\<forall>f. current_writer st = Some f \<longrightarrow> log (cleanup st) = EvClose f # log st)
     \<and> open_writers (log (cleanup st)) = []
     \<and> (\<forall>p. contents (log (cleanup st)) p = contents (log st) p)
     \<and> set (output_files st) \<subseteq> set (closed_paths (log st))"
proof -
  from run_chunks_inv [OF shard_inv_init, of E output_dir "stem E csv_path" master_schema
      year_filter "chunk_stream E"] assms(2)
  have inv: "shard_inv E output_dir (stem E csv_path) st" by simp
  note p = cleanup_props [OF inv]
  have "convert_large_csv_chunked E csv_path output_dir year_filter = (Inl e, log (cleanup st))"
    using assms by (simp add: convert_large_csv_chunked_def)
  moreover have "\<forall>f. current_writer st = Some f \<longrightarrow> log (cleanup st) = EvClose f # log st"
    by (simp add: cleanup_def)
  ultimately show ?thesis using p(2,9,10) by blast
qed


theorem open_shard_closed_before_reraise_witness:
  "first_read ex_env_fail = Inr ex_schema
   \<and> convert_large_csv_chunked ex_env_fail ''data/collision.csv'' ''out'' (Some (2015, 2024)) =
       (Inl ParserError,
        [EvClose ''out/collision_part01.parquet'',
         EvWrite ''out/collision_part01.parquet'' ex_table,
         EvOpen ''out/collision_part01.parquet''])
   \<and> open_writers
        [EvClose ''out/collision_part01.parquet'',
         EvWrite ''out/collision_part01.parquet'' ex_table,
         EvOpen ''out/collision_part01.parquet''] = []"
proof -
  have h1: "first_read ex_env_fail = Inr ex_schema"
    by (simp add: ex_env_fields)
  have h2: "run_chunks ex_env_fail ''out'' (stem ex_env_fail ''data/collision.csv'') ex_schema
      (Some (2015, 2024)) init_state (chunk_stream ex_env_fail) =
      (Some ParserError, \<lparr>output_files = [], part_num = 1,
        current_writer = Some ''out/collision_part01.parquet'',
        current_size = 1000, total_rows = 1, filtered_rows = 2, rows_in_current_part = 1,
        log = [EvWrite ''out/collision_part01.parquet'' ex_table,
               EvOpen ''out/collision_part01.parquet'']\<rparr>)"
    by (simp only: ex_env_fields run_fail_ex)
  note t = open_shard_closed_before_reraise [OF h1 h2]
  from t have "open_writers (log (cleanup \<lparr>output_files = [], part_num = 1,
        current_writer = Some ''out/collision_part01.parquet'',
        current_size = 1000, total_rows = 1, filtered_rows = 2, rows_in_current_part = 1,
        log = [EvWrite ''out/collision_part01.parquet'' ex_table,
               EvOpen ''out/collision_part01.parquet'']\<rparr>)) = []"
    by blast
  then have "open_writers
        [EvClose ''out/collision_part01.parquet'',
         EvWrite ''out/collision_part01.parquet'' ex_table,
         EvOpen ''out/collision_part01.parquet''] = []"
    by (simp add: cleanup_def)
  with h1 convert_fail_ex show ?thesis by (intro conjI)
qed

section \<open>Schema coercion\<close>

text \<open>
  Claim C6, as amended. For a well-formed batch and a schema with distinct field names, the
  coercion loop of lines 63-71, when it returns, has given every cell the value of its
  column's declared type: a cell of an integer-typed column goes through numeric coercion
  and then into the nullable integer representation, a cell of a floating-typed column goes
  through numeric coercion, which allows missing values, and every other cell is passed on
  as it is; the number a text becomes is the one \<^verbatim>\<open>pd.to_numeric\<close> gives it in its column. A
  text that does not parse becomes the missing value under both numeric types. The loop
  raises exactly when some cell of an integer-typed column, made numeric with its column,
  is neither missing nor a whole number of the int64 range; it then raises \<^verbatim>\<open>TypeError\<close> or
  \<^verbatim>\<open>OverflowError\<close>.
\<close>

theorem coerce_by_declared_type:
  assumes "distinct (map fst master_schema)" and "wf_frame chunk"
  shows "(\<forall>chunk'. coerce_schema pc master_schema chunk = Inr chunk' \<longleftrightarrow>
            (\<exists>rs. mapE (typed_row (col_parser pc chunk) master_schema) (rows chunk) = Inr rs
                  \<and> chunk' = chunk\<lparr>rows := rs\<rparr>))
   \<and> ((\<exists>e. coerce_schema pc master_schema chunk = Inl e) \<longleftrightarrow>
        (\<exists>r \<in> set (rows chunk). \<exists>kv \<in> set r. field_type master_schema (fst kv) = IntegerT
           \<and> \<not> whole_int64 (numeric_cell (col_parser pc chunk (fst kv)) (snd kv))))
   \<and> (\<forall>e. coerce_schema pc master_schema chunk = Inl e \<longrightarrow> e = TypeError \<or> e = OverflowError)
   \<and> (\<forall>ps s. ps s = None \<longrightarrow>
         typed_cell ps IntegerT (Text s) = Inr NA \<and> typed_cell ps FloatingT (Text s) = Inr NA)"
proof (intro conjI allI impI)
  fix chunk'
  show "coerce_schema pc master_schema chunk = Inr chunk' \<longleftrightarrow>
            (\<exists>rs. mapE (typed_row (col_parser pc chunk) master_schema) (rows chunk) = Inr rs
                  \<and> chunk' = chunk\<lparr>rows := rs\<rparr>)"
    by (rule coerce_schema_iff [OF assms])
next
  show "(\<exists>e. coerce_schema pc master_schema chunk = Inl e) \<longleftrightarrow>
        (\<exists>r \<in> set (rows chunk). \<exists>kv \<in> set r. field_type master_schema (fst kv) = IntegerT
           \<and> \<not> whole_int64 (numeric_cell (col_parser pc chunk (fst kv)) (snd kv)))"
    by (rule coerce_schema_raises [OF assms])
next
  fix e assume "coerce_schema pc master_schema chunk = Inl e"
  then show "e = TypeError \<or> e = OverflowError" by (rule coerce_schema_error)
next
  fix ps :: "string \<Rightarrow> fnum option" and s assume "ps s = None"
  then show "typed_cell ps IntegerT (Text s) = Inr NA" by simp
next
  fix ps :: "string \<Rightarrow> fnum option" and s assume "ps s = None"
  then show "typed_cell ps FloatingT (Text s) = Inr NA" by simp
qed

lemma ex_chunk_typed:
  "mapE (typed_row (col_parser (\<lambda>col. ex_parse) ex_chunk) ex_schema) (rows ex_chunk) = Inr
     [[(''collision_year'', Int64 2016), (''speed'', Float (Fin (5 / 2))), (''road'', Text ''A1'')],
      [(''collision_year'', NA), (''speed'', NA), (''road'', Text ''B2'')],
      [(''collision_year'', Int64 1999), (''speed'', Float (Fin (5 / 2))), (''road'', NA)]]"
  by (simp add: typed_row_def typed_entry_def field_type_def col_parser_def ex_schema_def
      ex_chunk_def ex_parse_def)

theorem coerce_by_declared_type_witness:
  "distinct (map fst ex_schema) \<and> wf_frame ex_chunk \<and> ex_parse ''n/a'' = None
   \<and> typed_cell ex_parse IntegerT (Text ''n/a'') = Inr NA
   \<and> coerce_schema (\<lambda>col. ex_parse) ex_schema ex_chunk =
       Inr (ex_chunk\<lparr>rows :=
         [[(''collision_year'', Int64 2016), (''speed'', Float (Fin (5 / 2))), (''road'', Text ''A1'')],
          [(''collision_year'', NA), (''speed'', NA), (''road'', Text ''B2'')],
          [(''collision_year'', Int64 1999), (''speed'', Float (Fin (5 / 2))), (''road'', NA)]]\<rparr>)"
proof -
  have h1: "distinct (map fst ex_schema)" by (simp add: ex_schema_def)
  have h2: "wf_frame ex_chunk" by (simp add: wf_frame_def ex_chunk_def)
  have h3: "ex_parse ''n/a'' = None" by (simp add: ex_parse_def)
  note t = coerce_by_declared_type [OF h1 h2, of "\<lambda>col. ex_parse"]
  from t h3 have a: "typed_cell ex_parse IntegerT (Text ''n/a'') = Inr NA" by blast
  let ?rs = "[[(''collision_year'', Int64 2016), (''speed'', Float (Fin (5 / 2))), (''road'', Text ''A1'')],
          [(''collision_year'', NA), (''speed'', NA), (''road'', Text ''B2'')],
          [(''collision_year'', Int64 1999), (''speed'', Float (Fin (5 / 2))), (''road'', NA)]]"
  have "\<exists>rs. mapE (typed_row (col_parser (\<lambda>col. ex_parse) ex_chunk) ex_schema) (rows ex_chunk) = Inr rs
      \<and> ex_chunk\<lparr>rows := ?rs\<rparr> = ex_chunk\<lparr>rows := rs\<rparr>"
    using ex_chunk_typed by (intro exI conjI) (assumption, rule refl)
  then have b: "coerce_schema (\<lambda>col. ex_parse) ex_schema ex_chunk = Inr (ex_chunk\<lparr>rows := ?rs\<rparr>)"
    by (rule t [THEN conjunct1, THEN spec, THEN iffD2])
  from h1 h2 h3 a b show ?thesis by (intro conjI)
qed

text \<open>
  Claim C6, as worded, fails: a value that does not parse can make the loop raise. In an
  integer-typed column that holds \<open>2\<^sup>6\<^sup>3 - 1\<close> and a text that does not parse, the text turns
  the column into float64, the integer becomes the double \<open>2\<^sup>6\<^sup>3\<close>, and
  \<^verbatim>\<open>.astype('Int64')\<close> raises \<^verbatim>\<open>TypeError\<close>; without that text the column is converted.
\<close>

theorem unparseable_value_makes_coercion_raise:
  "rows ex_max_chunk = [[(''id'', Text ''9223372036854775807'')], [(''id'', Text ''abc'')]]
   \<and> ex_to_num (col_values ''id'' (rows ex_max_chunk)) ''abc'' = None
   \<and> coerce_schema ex_to_num ex_id_schema ex_max_chunk = Inl TypeError
   \<and> rows ex_max_alone = [[(''id'', Text ''9223372036854775807'')]]
   \<and> coerce_schema ex_to_num ex_id_schema ex_max_alone =
       Inr \<lparr>columns = [''id''], rows = [[(''id'', Int64 9223372036854775807)]]\<rparr>"
  by (simp add: ex_max_chunk_def ex_max_alone_def ex_id_schema_def ex_to_num_def ex_big_int_def
      ex_nearest_double_def col_values_def to_numeric_def assign_col_def set_cell_def
      try_assign_col_def try_cell_def)


section \<open>The rows of the output\<close>

text \<open>
  Claim C3. When every chunk has the year column and the conversion runs with the year
  filter 2015 to 2024, every row of every table in every file the conversion wrote has a
  year that is a number between 2015 and 2024, whatever the outcome of the conversion;
  and 2015 to 2024 is the filter \<^verbatim>\<open>main\<close> passes for the category \<^verbatim>\<open>2024_prior\<close>.
\<close>

theorem output_rows_within_year_filter:
  assumes "convert_large_csv_chunked E csv_path output_dir (Some (2015, 2024)) = (res, lg)"
    and "list_all (\<lambda>c. year_col \<in> set (columns c)) (stream_chunks (chunk_stream E))"
  shows "list_all (\<lambda>t. list_all (year_within 2015 2024) (rows t)) (contents lg p)
     \<and> category_filter ''2024_prior'' = Some (2015, 2024)"
proof -
  let ?Q = "\<lambda>t. list_all (year_within 2015 2024) (rows t)"
  have w: "list_all ?Q (written (log (snd (run_chunks E output_dir (stem E csv_path) sch
      (Some (2015, 2024)) init_state (chunk_stream E)))))" for sch
  proof (rule run_chunks_written_all [OF shard_inv_init])
    show "list_all ?Q (written (log init_state))" by (simp add: init_state_def)
  next
    fix c c0 t
    assume c: "c \<in> set (stream_chunks (chunk_stream E))"
      and p: "prepared (to_num E) (Some (2015, 2024)) c = Some c0"
      and t: "coerce_schema (to_num E) sch c0 = Inr t"
    from c assms(2) have "year_col \<in> set (columns c)" by (simp add: list_all_iff)
    from prepared_year [OF p this] have "list_all (year_within 2015 2024) (rows c0)" .
    from coerce_schema_year [OF t this] show "?Q t" .
  qed
  from assms(1) have "list_all ?Q (written lg)"
  proof (cases rule: convert_cases)
    case (no_schema e)
    then show ?thesis by simp
  next
    case (returned sch st)
    from w [of sch] returned(2) have "list_all ?Q (written (log st))" by simp
    with finish_props(11) [OF returned(3)] returned(5) show ?thesis by simp
  next
    case (raised sch e st)
    from w [of sch] raised(2) have "list_all ?Q (written (log st))" by simp
    with cleanup_props(8) [OF raised(3)] raised(5) show ?thesis by simp
  qed
  with contents_written [of lg p]
  have "list_all ?Q (contents lg p)"
    by (auto simp: list_all_iff)
  then show ?thesis by (simp add: category_filter_def)
qed

theorem output_rows_within_year_filter_witness:
  "list_all (\<lambda>c. year_col \<in> set (columns c)) (stream_chunks (chunk_stream ex_env_roll))
   \<and> contents (snd (convert_large_csv_chunked ex_env_roll ''data/collision.csv'' ''out''
        (Some (2015, 2024)))) ''out/collision_part01.parquet'' = [ex_table, ex_table]
   \<and> list_all (\<lambda>t. list_all (year_within 2015 2024) (rows t)) [ex_table, ex_table]"
proof -
  have h: "list_all (\<lambda>c. year_col \<in> set (columns c)) (stream_chunks (chunk_stream ex_env_roll))"
    by (simp add: ex_env_fields year_col_def ex_chunk_def)
  have c: "contents (snd (convert_large_csv_chunked ex_env_roll ''data/collision.csv'' ''out''
        (Some (2015, 2024)))) ''out/collision_part01.parquet'' = [ex_table, ex_table]"
    by (simp add: convert_roll_ex)
  note t = output_rows_within_year_filter [OF convert_roll_ex h,
      of "''out/collision_part01.parquet''", THEN conjunct1]
  have "contents
      [EvAppend ''out/collision_part02.parquet'', EvClose ''out/collision_part02.parquet'',
       EvWrite ''out/collision_part02.parquet'' ex_table,
       EvOpen ''out/collision_part02.parquet'',
       EvAppend ''out/collision_part01.parquet'', EvClose ''out/collision_part01.parquet'',
       EvWrite ''out/collision_part01.parquet'' ex_table,
       EvWrite ''out/collision_part01.parquet'' ex_table,
       EvOpen ''out/collision_part01.parquet''] ''out/collision_part01.parquet''
     = [ex_table, ex_table]"
    by simp
  with t have "list_all (\<lambda>t. list_all (year_within 2015 2024) (rows t)) [ex_table, ex_table]"
    by (simp only:)
  with h c show ?thesis by (intro conjI)
qed


text \<open>
  Claim C1, as amended. When the conversion returns, for well-formed chunks and a schema
  with distinct field names: the tables of the returned shards, read shard after shard in
  the order of the returned list, are the coerced chunks that the year filter did not
  empty, one table for each, in the order of the input. Their rows stand one for one, and
  in this order, for the rows of the input that the year filter did not remove: no row is
  lost, duplicated or reordered. A row of a shard has the columns of its row of the input;
  a cell of a column that the schema types neither as integer nor as floating is the cell
  that was read (the year column apart when a filter is configured: it has been made
  numeric); a cell of an integer-typed column is of the nullable integer type. The numbers
  in the numeric columns are those the coercion loop gives, which need not be the numbers
  that were read. The reader raised on no chunk, so these are the rows of the whole
  file.
\<close>

theorem shards_hold_surviving_rows_in_order:
  assumes "convert_large_csv_chunked E csv_path output_dir year_filter = (Inr files, lg)"
    and "first_read E = Inr master_schema"
    and "distinct (map fst master_schema)"
    and "list_all wf_frame (stream_chunks (chunk_stream E))"
  shows "mapE (coerce_schema (to_num E) master_schema)
           (List.map_filter (prepared (to_num E) year_filter) (stream_chunks (chunk_stream E)))
         = Inr (concat (map (contents lg) files))
     \<and> list_all2 (same_row master_schema year_filter)
         (concat (map (kept_rows (to_num E) year_filter) (stream_chunks (chunk_stream E))))
         (concat (map rows (concat (map (contents lg) files))))
     \<and> (\<forall>e. Inl e \<notin> set (chunk_stream E))"
  using assms(1)
proof (cases rule: convert_cases)
  case (returned sch st)
  with assms(2) have sch: "sch = master_schema" by simp
  from run_chunks_written_exact [OF shard_inv_init returned(2)] obtain ts
    where ts: "mapE (coerce_schema (to_num E) sch)
        (List.map_filter (prepared (to_num E) year_filter) (stream_chunks (chunk_stream E))) = Inr ts"
      and w: "written (log st) = ts"
    by (auto simp: init_state_def)
  note p = finish_props [OF returned(3)]
  from returned(4,5) p(10,11) w have c: "concat (map (contents lg) files) = ts" by simp
  from ts have a: "mapE (coerce_schema (to_num E) master_schema)
           (List.map_filter (prepared (to_num E) year_filter) (stream_chunks (chunk_stream E)))
         = Inr (concat (map (contents lg) files))"
    by (simp only: c sch)
  from same_rows_of_tables [OF assms(3,4) ts [unfolded sch]] c
  have b: "list_all2 (same_row master_schema year_filter)
         (concat (map (kept_rows (to_num E) year_filter) (stream_chunks (chunk_stream E))))
         (concat (map rows (concat (map (contents lg) files))))"
    by simp
  from run_chunks_no_read_error [OF returned(2)]
  have "\<forall>e. Inl e \<notin> set (chunk_stream E)" by blast
  with a b show ?thesis by blast
qed simp_all

lemma kept_rows_ex:
  "kept_rows (\<lambda>col. ex_parse) (Some (2015, 2024)) ex_chunk =
     [[(''collision_year'', Text ''2016''), (''speed'', Text ''2.5''), (''road'', Text ''A1'')]]"
  by (simp add: kept_rows_def col_parser_def year_parses_within_def cell_parses_within_def
      year_col_def ex_chunk_def ex_parse_def)

theorem shards_hold_surviving_rows_in_order_witness:
  "first_read ex_env_roll = Inr ex_schema \<and> distinct (map fst ex_schema)
   \<and> list_all wf_frame (stream_chunks (chunk_stream ex_env_roll))
   \<and> concat (map rows (concat (map (contents (snd (convert_large_csv_chunked ex_env_roll
        ''data/collision.csv'' ''out'' (Some (2015, 2024)))))
        [''out/collision_part01.parquet'', ''out/collision_part02.parquet''])))
      = rows ex_table @ rows ex_table @ rows ex_table
   \<and> concat (map (kept_rows (to_num ex_env_roll) (Some (2015, 2024)))
        (stream_chunks (chunk_stream ex_env_roll)))
      = [rows ex_chunk ! 0, rows ex_chunk ! 0, rows ex_chunk ! 0]
   \<and> list_all2 (same_row ex_schema (Some (2015, 2024)))
        [rows ex_chunk ! 0, rows ex_chunk ! 0, rows ex_chunk ! 0]
        (rows ex_table @ rows ex_table @ rows ex_table)"
proof -
  have h2: "first_read ex_env_roll = Inr ex_schema" by (simp add: ex_env_fields)
  have h3: "distinct (map fst ex_schema)" by (simp add: ex_schema_def)
  have h4: "list_all wf_frame (stream_chunks (chunk_stream ex_env_roll))"
    by (simp add: ex_env_fields wf_frame_def ex_chunk_def)
  have c: "concat (map rows (concat (map (contents (snd (convert_large_csv_chunked ex_env_roll
        ''data/collision.csv'' ''out'' (Some (2015, 2024)))))
        [''out/collision_part01.parquet'', ''out/collision_part02.parquet''])))
      = rows ex_table @ rows ex_table @ rows ex_table"
    by (simp add: convert_roll_ex)
  have k: "concat (map (kept_rows (to_num ex_env_roll) (Some (2015, 2024)))
        (stream_chunks (chunk_stream ex_env_roll)))
      = [rows ex_chunk ! 0, rows ex_chunk ! 0, rows ex_chunk ! 0]"
    by (simp add: ex_env_fields kept_rows_ex) (simp add: ex_chunk_def)
  note t = shards_hold_surviving_rows_in_order [OF convert_roll_ex h2 h3 h4,
      THEN conjunct2, THEN conjunct1, unfolded k]
  have "concat (map rows (concat (map (contents
      [EvAppend ''out/collision_part02.parquet'', EvClose ''out/collision_part02.parquet'',
       EvWrite ''out/collision_part02.parquet'' ex_table,
       EvOpen ''out/collision_part02.parquet'',
       EvAppend ''out/collision_part01.parquet'', EvClose ''out/collision_part01.parquet'',
       EvWrite ''out/collision_part01.parquet'' ex_table,
       EvWrite ''out/collision_part01.parquet'' ex_table,
       EvOpen ''out/collision_part01.parquet''])
      [''out/collision_part01.parquet'', ''out/collision_part02.parquet''])))
     = rows ex_table @ rows ex_table @ rows ex_table"
    by simp
  with t have "list_all2 (same_row ex_schema (Some (2015, 2024)))
        [rows ex_chunk ! 0, rows ex_chunk ! 0, rows ex_chunk ! 0]
        (rows ex_table @ rows ex_table @ rows ex_table)"
    by (simp only:)
  with h2 h3 h4 c k show ?thesis by (intro conjI)
qed

text \<open>
  Claim C1, as worded, fails: the values of a column need not be those that were read. In
  an integer-typed column that holds \<open>2\<^sup>5\<^sup>3 + 1\<close> and a text that does not parse, the shard
  holds \<open>2\<^sup>5\<^sup>3\<close> in the place of the integer.
\<close>

theorem integer_beside_unparseable_value_is_rounded:
  "rows ex_big_chunk = [[(''id'', Text ''9007199254740993'')], [(''id'', Text ''abc'')]]
   \<and> first_read ex_env_big = Inr [(''id'', IntegerT)]
   \<and> chunk_stream ex_env_big = [Inr ex_big_chunk]
   \<and> convert_large_csv_chunked ex_env_big ''data/collision.csv'' ''out'' None =
      (Inr [''out/collision_part01.parquet''],
       [EvAppend ''out/collision_part01.parquet'', EvClose ''out/collision_part01.parquet'',
        EvWrite ''out/collision_part01.parquet''
          \<lparr>columns = [''id''], rows = [[(''id'', Int64 9007199254740992)], [(''id'', NA)]]\<rparr>,
        EvOpen ''out/collision_part01.parquet''])"
  by (simp add: convert_large_csv_chunked_def process_chunk_def write_chunk_def
      ensure_writer_def check_rollover_def finish_def init_state_def part_path_ex
      ex_env_big_def ex_big_chunk_def ex_id_schema_def ex_to_num_def ex_big_int_def
      ex_nearest_double_def col_values_def to_numeric_def assign_col_def set_cell_def
      try_assign_col_def try_cell_def Let_def MAX_SIZE_BYTES_def MAX_SIZE_MB_def)


section \<open>The batch job\<close>

text \<open>
  Claim C7. The two loops of \<^verbatim>\<open>main\<close> return the output files and the printed messages of
  every entry of the table, each entry taken by itself, in the order of the table; the
  same holds for the loop over any list of files. An entry whose path does not exist
  contributes a warning and no output file; an entry whose conversion raises contributes
  the logged error and no output file, and the entries after it are still processed.
\<close>

theorem main_contains_failures_per_file:
  "main M = (concat (map fst (concat (map (category_results M) csv_files))),
             concat (map snd (concat (map (category_results M) csv_files))))
   \<and> convert_files M d yf files ([], []) =
       (concat (map fst (map (file_result M d yf) files)),
        concat (map snd (map (file_result M d yf) files)))
   \<and> (\<not> path_exists M f \<longrightarrow> file_result M d yf f = ([], [Warning f]))
   \<and> (path_exists M f \<and> convert_file M d yf f = Inl e
        \<longrightarrow> file_result M d yf f = ([], [ConversionError f e]))"
  using convert_categories_acc [of M csv_files "[]" "[]"] convert_files_acc [of M d yf files "[]" "[]"]
  by (simp add: main_def file_result_def)

lemma convert_file_ex:
  "convert_file ex_main ''out'' (Some (2015, 2024)) ''data/collision.csv'' = Inl ParserError"
  by (simp add: convert_file_def ex_main_def convert_fail_ex)

theorem main_contains_failures_per_file_witness:
  "\<not> path_exists ex_main ''data/missing.csv''
   \<and> path_exists ex_main ''data/collision.csv''
   \<and> convert_file ex_main ''out'' (Some (2015, 2024)) ''data/collision.csv'' = Inl ParserError
   \<and> convert_files ex_main ''out'' (Some (2015, 2024))
        [''data/missing.csv'', ''data/collision.csv'', ''data/missing.csv''] ([], []) =
       ([], [Warning ''data/missing.csv'', ConversionError ''data/collision.csv'' ParserError,
             Warning ''data/missing.csv''])"
proof -
  have h1: "\<not> path_exists ex_main ''data/missing.csv''" by (simp add: ex_main_def)
  have h2: "path_exists ex_main ''data/collision.csv''" by (simp add: ex_main_def)
  note h3 = convert_file_ex
  note t1 = main_contains_failures_per_file [of ex_main "''out''" "Some (2015, 2024)"
      "[''data/missing.csv'', ''data/collision.csv'', ''data/missing.csv'']"
      "''data/missing.csv''"]
  note t2 = main_contains_failures_per_file [of ex_main "''out''" "Some (2015, 2024)"
      "[]" "''data/collision.csv''" ParserError]
  from t1 h1 have r1: "file_result ex_main ''out'' (Some (2015, 2024)) ''data/missing.csv''
      = ([], [Warning ''data/missing.csv''])" by blast
  from t2 h2 h3 have r2: "file_result ex_main ''out'' (Some (2015, 2024)) ''data/collision.csv''
      = ([], [ConversionError ''data/collision.csv'' ParserError])" by blast
  from t1 have "convert_files ex_main ''out'' (Some (2015, 2024))
        [''data/missing.csv'', ''data/collision.csv'', ''data/missing.csv''] ([], []) =
       (concat (map fst (map (file_result ex_main ''out'' (Some (2015, 2024)))
          [''data/missing.csv'', ''data/collision.csv'', ''data/missing.csv''])),
        concat (map snd (map (file_result ex_main ''out'' (Some (2015, 2024)))
          [''data/missing.csv'', ''data/collision.csv'', ''data/missing.csv''])))"
    by blast
  then have "convert_files ex_main ''out'' (Some (2015, 2024))
        [''data/missing.csv'', ''data/collision.csv'', ''data/missing.csv''] ([], []) =
       ([], [Warning ''data/missing.csv'', ConversionError ''data/collision.csv'' ParserError,
             Warning ''data/missing.csv''])"
    by (simp add: r1 r2)
  with h1 h2 h3 show ?thesis by (intro conjI)
qed


section \<open>The small-file converter\<close>

text \<open>
  Claim C8, as amended. When \<^verbatim>\<open>convert_small_csv\<close> returns: if the single Parquet file does
  not exceed the threshold, it is the only output and nothing else is written. Otherwise
  the file is deleted and the rows are rewritten, in their order, as consecutive shards
  \<open>part01\<close>, \<open>part02\<close> and so on; with N the size divided by the threshold, rounded down,
  plus one, every shard but the last holds (row count div N) + 1 rows, the last shard holds
  the rows that remain (at least one, at most that many), and the number of shards is at
  most N.
\<close>


theorem small_csv_split:
  assumes "read_csv S = Inr df"
    and "convert_small_csv S csv_path output_dir = (Inr files, ops)"
  shows "let temp_parquet = output_dir @ ''/'' @ small_stem S csv_path @ ''.parquet'';
             file_size = parquet_size S (rows df);
             num_splits = file_size div MAX_SIZE_BYTES + 1;
             rows_per_split = length (rows df) div num_splits + 1;
             shards = slices (rows df) rows_per_split [0..<num_splits]
         in (file_size \<le> MAX_SIZE_BYTES \<longrightarrow>
               files = [temp_parquet] \<and> ops = [ToParquet temp_parquet (rows df)])
          \<and> (MAX_SIZE_BYTES < file_size \<longrightarrow>
               files = map (part_path output_dir (small_stem S csv_path)) [1..<Suc (length shards)]
             \<and> ops = rev (map2 ToParquet files shards)
                     @ [Remove temp_parquet, ToParquet temp_parquet (rows df)]
             \<and> concat shards = rows df
             \<and> length shards \<le> num_splits
             \<and> (\<forall>s \<in> set (butlast shards). length s = rows_per_split)
             \<and> (\<forall>s \<in> set shards. 0 < length s \<and> length s \<le> rows_per_split))"
proof -
  define temp where "temp = output_dir @ ''/'' @ small_stem S csv_path @ ''.parquet''"
  define sz where "sz = parquet_size S (rows df)"
  define N where "N = sz div MAX_SIZE_BYTES + 1"
  define rps where "rps = length (rows df) div N + 1"
  define shards where "shards = slices (rows df) rps [0..<N]"
  have rps: "0 < rps" by (simp add: rps_def)
  from assms have ne: "to_parquet_error S temp (rows df) = None"
    by (cases "to_parquet_error S temp (rows df)") (simp_all add: convert_small_csv_def temp_def Let_def)
  have small: "files = [temp] \<and> ops = [ToParquet temp (rows df)]" if "sz \<le> MAX_SIZE_BYTES"
    using assms ne that by (simp add: convert_small_csv_def temp_def sz_def Let_def)
  have big: "files = map (part_path output_dir (small_stem S csv_path)) [1..<Suc (length shards)]
             \<and> ops = rev (map2 ToParquet files shards) @ [Remove temp, ToParquet temp (rows df)]
             \<and> concat shards = rows df
             \<and> length shards \<le> N
             \<and> (\<forall>s \<in> set (butlast shards). length s = rps)
             \<and> (\<forall>s \<in> set shards. 0 < length s \<and> length s \<le> rps)"
    if "MAX_SIZE_BYTES < sz"
  proof -
    from assms ne that
    have sp: "split_parts S output_dir (small_stem S csv_path) (rows df) rps [0..<N] []
        [Remove temp, ToParquet temp (rows df)] = (Inr files, ops)"
      by (simp add: convert_small_csv_def temp_def sz_def N_def rps_def Let_def)
    have len: "length shards \<le> N"
      using slices_length [of "rows df" rps "[0..<N]"] by (simp add: shards_def)
    then have tk: "take (length shards) [0..<N] = [0..<length shards]"
      by (simp add: take_upt)
    from split_parts_slices [OF sp, folded shards_def, unfolded tk map_part_path_upt]
    have f: "files = map (part_path output_dir (small_stem S csv_path)) [1..<Suc (length shards)]"
      and o: "ops = rev (map2 ToParquet
            (map (part_path output_dir (small_stem S csv_path)) [1..<Suc (length shards)]) shards)
          @ [Remove temp, ToParquet temp (rows df)]"
      by simp_all
    have "length (rows df) < N * rps"
      unfolding N_def rps_def by (rule split_covers)
    then have c: "concat shards = rows df"
      using slices_concat [OF rps, of "rows df" 0 N] by (simp add: shards_def)
    have b: "\<forall>s \<in> set (butlast shards). length s = rps"
      using slices_butlast [OF rps, of _ "rows df" 0 N] by (simp add: shards_def)
    have a: "\<forall>s \<in> set shards. 0 < length s \<and> length s \<le> rps"
      using slices_bounds [OF rps, of _ "rows df" "[0..<N]"] by (simp add: shards_def)
    from f o [folded f] c len b a show ?thesis by blast
  qed
  from small big show ?thesis
    unfolding Let_def temp_def [symmetric] sz_def [symmetric] N_def [symmetric]
      rps_def [symmetric] shards_def [symmetric]
    by blast
qed

lemma part_path_small_ex:
  "part_path ''out'' ''small'' (Suc 0) = ''out/small_part01.parquet''"
  "part_path ''out'' ''small'' 2 = ''out/small_part02.parquet''"
  "part_path ''out'' ''small'' 3 = ''out/small_part03.parquet''"
  by (simp_all add: part_path_def fmt_ex)

lemma part_path_small_ex_Suc:
  "part_path ''out'' ''small'' (Suc (Suc 0)) = ''out/small_part02.parquet''"
  "part_path ''out'' ''small'' (Suc (Suc (Suc 0))) = ''out/small_part03.parquet''"
  using part_path_small_ex(2,3) by (simp_all add: numeral_2_eq_2 numeral_3_eq_3)

lemma upt_4: "[0..<4] = [0, 1, 2, 3]"
  by (simp add: upt_rec)

lemma convert_small_ex:
  "convert_small_csv ex_small ''data/small.csv'' ''out'' =
     (Inr [''out/small_part01.parquet'', ''out/small_part02.parquet'', ''out/small_part03.parquet''],
      [ToParquet ''out/small_part03.parquet'' [[(''id'', Int64 5)]],
       ToParquet ''out/small_part02.parquet'' [[(''id'', Int64 3)], [(''id'', Int64 4)]],
       ToParquet ''out/small_part01.parquet'' [[(''id'', Int64 1)], [(''id'', Int64 2)]],
       Remove ''out/small.parquet'',
       ToParquet ''out/small.parquet''
         [[(''id'', Int64 1)], [(''id'', Int64 2)], [(''id'', Int64 3)], [(''id'', Int64 4)],
          [(''id'', Int64 5)]]])"
  by (simp add: convert_small_csv_def ex_small_def ex_small_df_def MAX_SIZE_BYTES_def
      MAX_SIZE_MB_def upt_4 part_path_small_ex part_path_small_ex_Suc Let_def)


lemma convert_small_fit_ex:
  "convert_small_csv ex_small_fit ''data/small.csv'' ''out'' =
     (Inr [''out/small.parquet''],
      [ToParquet ''out/small.parquet''
         [[(''id'', Int64 1)], [(''id'', Int64 2)], [(''id'', Int64 3)], [(''id'', Int64 4)],
          [(''id'', Int64 5)]]])"
  by (simp add: convert_small_csv_def ex_small_fit_def ex_small_def ex_small_df_def
      MAX_SIZE_BYTES_def MAX_SIZE_MB_def Let_def)

theorem small_csv_split_witness:
  "read_csv ex_small = Inr ex_small_df
   \<and> MAX_SIZE_BYTES < parquet_size ex_small (rows ex_small_df)
   \<and> concat (slices (rows ex_small_df) 2 [0..<4]) = rows ex_small_df
   \<and> length (slices (rows ex_small_df) 2 [0..<4]) \<le> 4
   \<and> read_csv ex_small_fit = Inr ex_small_df
   \<and> parquet_size ex_small_fit (rows ex_small_df) \<le> MAX_SIZE_BYTES
   \<and> [''out/small.parquet''] = [''out'' @ ''/'' @ small_stem ex_small_fit ''data/small.csv'' @ ''.parquet'']"
proof -
  have h1: "read_csv ex_small = Inr ex_small_df" by (simp add: ex_small_def)
  have h2: "MAX_SIZE_BYTES < parquet_size ex_small (rows ex_small_df)"
    by (simp add: ex_small_def MAX_SIZE_BYTES_def MAX_SIZE_MB_def)
  have N: "parquet_size ex_small (rows ex_small_df) div MAX_SIZE_BYTES + 1 = 4"
    by (simp add: ex_small_def MAX_SIZE_BYTES_def MAX_SIZE_MB_def)
  have rps: "length (rows ex_small_df) div 4 + 1 = 2"
    by (simp add: ex_small_df_def)
  note t = small_csv_split [OF h1 convert_small_ex, unfolded Let_def N rps]
  from t h2 have c: "concat (slices (rows ex_small_df) 2 [0..<4]) = rows ex_small_df"
    and l: "length (slices (rows ex_small_df) 2 [0..<4]) \<le> 4"
    by blast+
  have g1: "read_csv ex_small_fit = Inr ex_small_df" by (simp add: ex_small_fit_def ex_small_def)
  have g2: "parquet_size ex_small_fit (rows ex_small_df) \<le> MAX_SIZE_BYTES"
    by (simp add: ex_small_fit_def ex_small_def MAX_SIZE_BYTES_def MAX_SIZE_MB_def)
  note u = small_csv_split [OF g1 convert_small_fit_ex, unfolded Let_def]
  from u g2 have f: "[''out/small.parquet''] =
      [''out'' @ ''/'' @ small_stem ex_small_fit ''data/small.csv'' @ ''.parquet'']"
    by blast
  from h1 h2 c l g1 g2 f show ?thesis by (intro conjI)
qed


text \<open>
  Claim C8, as worded, fails: for five rows whose file is a little over 150 MB, N is 4,
  and the converter writes three shards of two, two and one rows.
\<close>

theorem small_csv_shards_fewer_and_unequal:
  "parquet_size ex_small (rows ex_small_df) div MAX_SIZE_BYTES + 1 = 4
   \<and> convert_small_csv ex_small ''data/small.csv'' ''out'' =
     (Inr [''out/small_part01.parquet'', ''out/small_part02.parquet'', ''out/small_part03.parquet''],
      [ToParquet ''out/small_part03.parquet'' [[(''id'', Int64 5)]],
       ToParquet ''out/small_part02.parquet'' [[(''id'', Int64 3)], [(''id'', Int64 4)]],
       ToParquet ''out/small_part01.parquet'' [[(''id'', Int64 1)], [(''id'', Int64 2)]],
       Remove ''out/small.parquet'',
       ToParquet ''out/small.parquet''
         [[(''id'', Int64 1)], [(''id'', Int64 2)], [(''id'', Int64 3)], [(''id'', Int64 4)],
          [(''id'', Int64 5)]]])"
  by (simp add: convert_small_ex) (simp add: ex_small_def MAX_SIZE_BYTES_def MAX_SIZE_MB_def)


section \<open>The label replacement script\<close>







end
